theory Spec2Isabelle
  imports Main "HOL-Library.Word"
begin

unbundle bit_operations_syntax

section \<open>Failures of the C++ code as values\<close>

text \<open>
  The C++ code is \<open>noexcept\<close> and checks nothing; where it would index a vector out of
  range, divide by zero, copy past the end of an object, loop without advancing or use
  an object whose lifetime has ended, the model returns one of these values instead.
  \<^item> \<open>OutOfRange\<close>: \<open>mem[..]\<close> or \<open>words[..]\<close> indexed beyond the vector;
  \<^item> \<open>DivByZero\<close>: \<open>/ align\<close> with \<open>align = 0\<close>;
  \<^item> \<open>Overrun\<close>: a \<open>memcpy\<close> of \<open>align\<close> bytes from or to an object that is shorter
    (the payload of a word is a \<open>std::uint64_t\<close>, eight bytes);
  \<^item> \<open>LoopWrap\<close>: \<open>offset += align\<close> does not advance the 64-bit counter (\<open>align = 0\<close>)
    or wraps it around, so that the \<open>for\<close> loop does not leave through its condition;
  \<^item> \<open>DanglingReference\<close>: an object is accessed through a reference after the block
    that declared it has been left.
\<close>

datatype error = OutOfRange | DivByZero | Overrun | LoopWrap | DanglingReference

section \<open>The versioned lock\<close>

text \<open>
  Modelled from the spec: \<open>versioned_lock.hpp\<close> (class \<open>VersionedLock\<close> with \<open>Sample\<close>,
  \<open>TryLock\<close>, \<open>Unlock()\<close> and \<open>Unlock(version)\<close>, and its \<open>TimeStamp\<close>) is included by
  \<open>region.hpp\<close> but is not among the sources. The state of a lock is the pair
  \<open>(locked, version)\<close> of the specification, the version an unsigned number.
\<close>

record TimeStamp =
  locked :: bool
  version :: nat

type_synonym VersionedLock = TimeStamp

text \<open>Modelled from the spec: \<open>sample()\<close> is an atomic load returning \<open>(locked, version)\<close>.\<close>

definition Sample :: "VersionedLock \<Rightarrow> TimeStamp" where
  "Sample l = l"

text \<open>
  Modelled from the spec: \<open>try_lock(rv)\<close>, if the lock is currently unlocked, sets
  \<open>locked\<close> and leaves the version unchanged; otherwise it fails. The argument \<open>rv\<close> is
  informational only.
\<close>

definition TryLock :: "32 word \<Rightarrow> VersionedLock \<Rightarrow> bool \<times> VersionedLock" where
  "TryLock rv l = (if locked l then (False, l) else (True, l\<lparr>locked := True\<rparr>))"

text \<open>Modelled from the spec: \<open>unlock()\<close> sets \<open>locked = false\<close>, version unchanged.\<close>

definition Unlock :: "VersionedLock \<Rightarrow> VersionedLock" where
  "Unlock l = l\<lparr>locked := False\<rparr>"

text \<open>
  Modelled from the spec: \<open>unlock_with(new_version)\<close> sets \<open>locked = false\<close> and
  \<open>version = new_version\<close>. The code passes the 32-bit \<open>transaction.wv\<close>.
\<close>

definition UnlockTo :: "32 word \<Rightarrow> VersionedLock \<Rightarrow> VersionedLock" where
  "UnlockTo v l = \<lparr>locked = False, version = unat v\<rparr>"

text \<open>
  Modelled from the spec: a freshly constructed lock is unlocked with version 0
  (\<open>alloc\<close> initialises words "with version 0, unlocked, payload zero").
\<close>

definition VersionedLock_init :: VersionedLock where
  "VersionedLock_init = \<lparr>locked = False, version = 0\<rparr>"

section \<open>The region (region.hpp)\<close>

text \<open>
  \<open>struct Word { VersionedLock lock; std::uint64_t word; }\<close>. The payload is kept as
  its eight bytes, since the code only ever accesses it through \<open>memcpy\<close>; the field is
  called \<open>data\<close>, the name \<open>tm.cpp\<close> uses for it.
\<close>

record Word =
  lock :: VersionedLock
  data :: "8 word list"

text \<open>\<open>struct Segment { std::size_t size; std::vector<Word> words = std::vector<Word>(1024); }\<close>\<close>

record Segment =
  seg_size :: "64 word"
  words :: "Word list"

record Region =
  align :: "64 word"
  mem :: "Segment list"
  gvc :: "32 word"
  segs :: "32 word"

definition kFIRST :: "64 word" where
  "kFIRST = push_bit 32 1"

definition kADDR_MASK :: "64 word" where
  "kADDR_MASK = 0x000000000000FFFF"

definition Word_init :: Word where
  "Word_init = \<lparr>lock = VersionedLock_init, data = replicate 8 0\<rparr>"

definition Segment_init :: "64 word \<Rightarrow> Segment" where
  "Segment_init sz = \<lparr>seg_size = sz, words = replicate 1024 Word_init\<rparr>"

text \<open>\<open>Region(size, align) : align(align), mem(512, Segment{size})\<close>, \<open>gvc{0}\<close>, \<open>segs{1}\<close>.\<close>

definition Region_init :: "64 word \<Rightarrow> 64 word \<Rightarrow> Region" where
  "Region_init sz al = \<lparr>align = al, mem = replicate 512 (Segment_init sz), gvc = 0, segs = 1\<rparr>"

text \<open>
  The two indices of \<open>mem[addr >> 32].words[(addr & kADDR_MASK) / align]\<close>.
\<close>

definition word_index :: "Region \<Rightarrow> 64 word \<Rightarrow> error + (nat \<times> nat)" where
  "word_index r addr =
     (if align r = 0 then Inl DivByZero
      else Inr (unat (drop_bit 32 addr), unat ((addr AND kADDR_MASK) div align r)))"

text \<open>\<open>Region::word\<close>, read through the reference it returns.\<close>

definition Region_word :: "Region \<Rightarrow> 64 word \<Rightarrow> error + Word" where
  "Region_word r addr =
     (case word_index r addr of
        Inl e \<Rightarrow> Inl e
      | Inr (s, i) \<Rightarrow>
          if s < length (mem r) then
            (if i < length (words (mem r ! s)) then Inr (words (mem r ! s) ! i)
             else Inl OutOfRange)
          else Inl OutOfRange)"

text \<open>\<open>Region::word\<close>, written through the reference it returns.\<close>

definition Region_word_update :: "Region \<Rightarrow> 64 word \<Rightarrow> (Word \<Rightarrow> Word) \<Rightarrow> error + Region" where
  "Region_word_update r addr f =
     (case word_index r addr of
        Inl e \<Rightarrow> Inl e
      | Inr (s, i) \<Rightarrow>
          if s < length (mem r) then
            (if i < length (words (mem r ! s)) then
               Inr (r\<lparr>mem := (mem r)[s := (mem r ! s)\<lparr>words :=
                      (words (mem r ! s))[i := f (words (mem r ! s) ! i)]\<rparr>]\<rparr>)
             else Inl OutOfRange)
          else Inl OutOfRange)"


text \<open>
  The decomposition of an address in the words of the specification:
  \<open>(addr >> 32, (addr & 0xFFFFFFFF) / align)\<close>.
\<close>

definition decompose_spec :: "64 word \<Rightarrow> 64 word \<Rightarrow> nat \<times> nat" where
  "decompose_spec al addr = (unat (drop_bit 32 addr), unat ((addr AND 0xFFFFFFFF) div al))"

section \<open>Transactions (transaction.hpp)\<close>

text \<open>
  \<open>read_set\<close> is a \<open>std::unordered_set\<close>: a list without duplicates, whose order
  stands for the unspecified iteration order. \<open>write_set\<close> is a \<open>std::map\<close> from the
  target address to the staged buffer: an association list kept in ascending order of
  the addresses, which is the order a \<open>std::map\<close> is iterated in.
\<close>

record Transaction =
  ro :: bool
  rv :: "32 word"
  wv :: "32 word"
  read_set :: "64 word list"
  write_set :: "(64 word \<times> 8 word list) list"

text \<open>\<open>std::unordered_set::emplace\<close>\<close>

definition emplace :: "64 word \<Rightarrow> 64 word list \<Rightarrow> 64 word list" where
  "emplace a xs = (if a \<in> set xs then xs else xs @ [a])"

text \<open>\<open>m[k] = v\<close> on a \<open>std::map\<close>\<close>

fun map_assign :: "64 word \<Rightarrow> 'v \<Rightarrow> (64 word \<times> 'v) list \<Rightarrow> (64 word \<times> 'v) list" where
  "map_assign k v [] = [(k, v)]"
| "map_assign k v (e # es) =
     (if k < fst e then (k, v) # e # es
      else if k = fst e then (k, v) # es
      else e # map_assign k v es)"

section \<open>Shared state, private memory and the operations issued on shared state\<close>

text \<open>
  Every operation the code issues on a word's lock, on a word's payload or on the global
  version clock is recorded, in program order. \<open>LockWriteSet\<close> works on by-value copies
  of the words (\<open>auto w = word(entry.first)\<close>): the copy is recorded as \<open>EvCopyWord\<close> and
  the \<open>TryLock\<close> on the lock of the copy as \<open>EvTryLockCopy\<close>.
\<close>

datatype event =
    EvGvcLoad
  | EvGvcFetchAdd
  | EvSample "64 word"
  | EvReadData "64 word"
  | EvCopyWord "64 word"
  | EvTryLockCopy "64 word"
  | EvUnlock "64 word"
  | EvWriteData "64 word"
  | EvUnlockTo "64 word" "32 word"

text \<open>
  The region, the caller's private memory (byte addressed) and the operations issued so
  far.
\<close>

record world =
  region :: Region
  priv :: "64 word \<Rightarrow> 8 word"
  trace :: "event list"

definition emit :: "event \<Rightarrow> world \<Rightarrow> world" where
  "emit e w = w\<lparr>trace := trace w @ [e]\<rparr>"

definition load_bytes :: "(64 word \<Rightarrow> 8 word) \<Rightarrow> 64 word \<Rightarrow> nat \<Rightarrow> 8 word list" where
  "load_bytes m p n = map (\<lambda>i. m (p + of_nat i)) [0..<n]"

fun store_bytes :: "(64 word \<Rightarrow> 8 word) \<Rightarrow> 64 word \<Rightarrow> 8 word list \<Rightarrow> (64 word \<Rightarrow> 8 word)" where
  "store_bytes m p [] = m"
| "store_bytes m p (b # bs) = store_bytes (m(p := b)) (p + 1) bs"

text \<open>\<open>memcpy(dst, src, n)\<close> between two objects of known length.\<close>

definition memcpy :: "8 word list \<Rightarrow> 8 word list \<Rightarrow> nat \<Rightarrow> error + 8 word list" where
  "memcpy dst src n =
     (if n \<le> length dst \<and> n \<le> length src then Inr (take n src @ drop n dst) else Inl Overrun)"

text \<open>\<open>memcpy(p, src, n)\<close> from an object of known length into private memory.\<close>

definition memcpy_out ::
  "(64 word \<Rightarrow> 8 word) \<Rightarrow> 64 word \<Rightarrow> 8 word list \<Rightarrow> nat \<Rightarrow> error + (64 word \<Rightarrow> 8 word)" where
  "memcpy_out m p src n = (if n \<le> length src then Inr (store_bytes m p (take n src)) else Inl Overrun)"

section \<open>The loop over the words of an access\<close>

text \<open>
  \<open>for (std::size_t offset = 0; offset < size; offset += region->align) body\<close>, where
  the body either falls through to the next iteration or returns from the function.
  The counter is a 64-bit word and \<open>+\<close> wraps around: when \<open>offset + align\<close> is not above
  \<open>offset\<close>, the alignment is zero or the addition has wrapped, and the result is
  \<open>LoopWrap\<close>. With a size that is a multiple of a nonzero alignment this does not happen
  (lemma \<open>for_offsets_run\<close>).
\<close>

datatype ('s, 'r) flow = Continue 's | Return 'r

function for_offsets ::
  "64 word \<Rightarrow> 64 word \<Rightarrow> (64 word \<Rightarrow> 's \<Rightarrow> error + ('s, 'r) flow) \<Rightarrow> 64 word \<Rightarrow> 's
     \<Rightarrow> error + ('s, 'r) flow" where
  "for_offsets sz al body offset s =
     (if offset < sz then
        (case body offset s of
           Inl e \<Rightarrow> Inl e
         | Inr (Return r) \<Rightarrow> Inr (Return r)
         | Inr (Continue s') \<Rightarrow>
             if offset < offset + al then for_offsets sz al body (offset + al) s'
             else Inl LoopWrap)
      else Inr (Continue s))"
  by pat_completeness auto
termination
  by (relation "measure (\<lambda>(sz, al, body, offset, s). unat sz - unat offset)")
     (auto simp: word_less_nat_alt)

declare for_offsets.simps [simp del]

section \<open>The region's bulk operations (region.hpp)\<close>

text \<open>
  \<open>Region::LockWriteSet\<close>. \<open>auto w = word(entry.first)\<close> declares a \<open>Word\<close>, not a
  reference: \<open>w\<close> is a copy of the word, local to the body of the loop, and \<open>TryLock\<close>
  works on the copy. The region itself is read, never written. (\<open>Commit\<close> and
  \<open>UnlockWriteSet\<close> below work on the words of the region: they bind a reference or use
  the result of \<open>word\<close> directly.)

  \<open>locked.push_back(w)\<close> stores a \<open>std::reference_wrapper\<close> to that local \<open>w\<close>, whose
  lifetime ends with the iteration. When a \<open>TryLock\<close> fails, the loop
  \<open>for (const auto l : locked) l.get().lock.Unlock()\<close> goes through the stored
  references: if there is none, it does nothing and the function returns false; if
  there is one, it accesses a dead object, which is undefined behaviour
  (\<open>DanglingReference\<close>).
\<close>

fun LockWriteSet_loop ::
  "Transaction \<Rightarrow> (64 word \<times> 8 word list) list \<Rightarrow> (64 word \<times> Word) list \<Rightarrow> world
     \<Rightarrow> error + (bool \<times> world)" where
  "LockWriteSet_loop t [] lockedv w = Inr (True, w)"
| "LockWriteSet_loop t (entry # rest) lockedv w =
     (case Region_word (region w) (fst entry) of
        Inl e \<Rightarrow> Inl e
      | Inr wref \<Rightarrow>
          let w1 = emit (EvCopyWord (fst entry)) w;
              res = TryLock (rv t) (lock wref);
              w2 = emit (EvTryLockCopy (fst entry)) w1
          in if \<not> fst res then
               (if lockedv = [] then Inr (False, w2) else Inl DanglingReference)
             else LockWriteSet_loop t rest (lockedv @ [(fst entry, wref\<lparr>lock := snd res\<rparr>)]) w2)"

definition LockWriteSet :: "world \<Rightarrow> Transaction \<Rightarrow> error + (bool \<times> world)" where
  "LockWriteSet w t = LockWriteSet_loop t (write_set t) [] w"

text \<open>\<open>Region::UnlockWriteSet\<close>\<close>

fun UnlockWriteSet_loop :: "(64 word \<times> 8 word list) list \<Rightarrow> world \<Rightarrow> error + world" where
  "UnlockWriteSet_loop [] w = Inr w"
| "UnlockWriteSet_loop (entry # rest) w =
     (case Region_word_update (region w) (fst entry) (\<lambda>x. x\<lparr>lock := Unlock (lock x)\<rparr>) of
        Inl e \<Rightarrow> Inl e
      | Inr r' \<Rightarrow> UnlockWriteSet_loop rest (emit (EvUnlock (fst entry)) (w\<lparr>region := r'\<rparr>)))"

definition UnlockWriteSet :: "world \<Rightarrow> Transaction \<Rightarrow> error + world" where
  "UnlockWriteSet w t = UnlockWriteSet_loop (write_set t) w"

text \<open>\<open>Region::ValidateReadSet\<close>, the read set iterated in the order of the list.\<close>

fun ValidateReadSet_loop :: "Transaction \<Rightarrow> 64 word list \<Rightarrow> world \<Rightarrow> error + (bool \<times> world)" where
  "ValidateReadSet_loop t [] w = Inr (True, w)"
| "ValidateReadSet_loop t (addr # rest) w =
     (case Region_word (region w) addr of
        Inl e \<Rightarrow> Inl e
      | Inr x \<Rightarrow>
          let ts = Sample (lock x);
              w1 = emit (EvSample addr) w
          in if unat (rv t) < version ts \<or> locked ts then Inr (False, w1)
             else ValidateReadSet_loop t rest w1)"

definition ValidateReadSet :: "world \<Rightarrow> Transaction \<Rightarrow> error + (bool \<times> world)" where
  "ValidateReadSet w t = ValidateReadSet_loop t (read_set t) w"

text \<open>\<open>Region::Commit\<close>\<close>

fun Commit_loop :: "Transaction \<Rightarrow> (64 word \<times> 8 word list) list \<Rightarrow> world \<Rightarrow> error + world" where
  "Commit_loop t [] w = Inr w"
| "Commit_loop t (entry # rest) w =
     (case Region_word (region w) (fst entry) of
        Inl e \<Rightarrow> Inl e
      | Inr wl \<Rightarrow>
          (case memcpy (data wl) (snd entry) (unat (align (region w))) of
             Inl e \<Rightarrow> Inl e
           | Inr d \<Rightarrow>
               (case Region_word_update (region w) (fst entry)
                       (\<lambda>x. x\<lparr>data := d, lock := UnlockTo (wv t) (lock x)\<rparr>) of
                  Inl e \<Rightarrow> Inl e
                | Inr r' \<Rightarrow>
                    Commit_loop t rest
                      (emit (EvUnlockTo (fst entry) (wv t))
                         (emit (EvWriteData (fst entry)) (w\<lparr>region := r'\<rparr>))))))"

definition Commit :: "world \<Rightarrow> Transaction \<Rightarrow> error + world" where
  "Commit w t = Commit_loop t (write_set t) w"

section \<open>The transactional operations (tm.cpp)\<close>

text \<open>
  Each operation takes the world and the transaction and returns its boolean result, the
  transaction (\<open>None\<close> once it has been deleted) and the world.
\<close>

type_synonym outcome = "bool \<times> Transaction option \<times> world"

text \<open>\<open>tm_begin\<close>: \<open>new Transaction{ro, gvc.load()}\<close>\<close>

definition tm_begin :: "world \<Rightarrow> bool \<Rightarrow> Transaction \<times> world" where
  "tm_begin w is_ro =
     (\<lparr>ro = is_ro, rv = gvc (region w), wv = 0, read_set = [], write_set = []\<rparr>,
      emit EvGvcLoad w)"

text \<open>
  The body of the loop of \<open>tm_write\<close>: a fresh zeroed buffer of \<open>align\<close> bytes is stored
  under the target address, then \<open>align\<close> bytes of private memory are copied into it.
\<close>

definition tm_write_body ::
  "64 word \<Rightarrow> 64 word \<Rightarrow> 64 word \<Rightarrow> Transaction \<times> world
     \<Rightarrow> error + (Transaction \<times> world, outcome) flow" where
  "tm_write_body source_word_base target_word_base offset tw =
     (let t = fst tw; w = snd tw;
          n = unat (align (region w));
          target_word = target_word_base + offset;
          source_word = source_word_base + offset;
          ws1 = map_assign target_word (replicate n 0) (write_set t)
      in case memcpy (replicate n 0) (load_bytes (priv w) source_word n) n of
           Inl e \<Rightarrow> Inl e
         | Inr buf \<Rightarrow> Inr (Continue (t\<lparr>write_set := map_assign target_word buf ws1\<rparr>, w)))"

definition tm_write :: "world \<Rightarrow> Transaction \<Rightarrow> 64 word \<Rightarrow> 64 word \<Rightarrow> 64 word \<Rightarrow> error + outcome" where
  "tm_write w t source sz target =
     (case for_offsets sz (align (region w)) (tm_write_body source target) 0 (t, w) of
        Inl e \<Rightarrow> Inl e
      | Inr (Return r) \<Rightarrow> Inr r
      | Inr (Continue tw) \<Rightarrow> Inr (True, Some (fst tw), snd tw))"

text \<open>
  The part common to both loops of \<open>tm_read\<close>: sample the lock of the word; if it is
  locked or newer than \<open>rv\<close>, delete the transaction and return false; otherwise copy the
  payload to the target.
\<close>

definition read_shared ::
  "64 word \<Rightarrow> Word \<Rightarrow> 64 word \<Rightarrow> Transaction \<times> world \<Rightarrow> error + (Transaction \<times> world, outcome) flow" where
  "read_shared addr x target_addr tw =
     (let t = fst tw; w = snd tw;
          ts = Sample (lock x);
          w1 = emit (EvSample addr) w
      in if locked ts \<or> unat (rv t) < version ts then Inr (Return (False, None, w1))
         else (case memcpy_out (priv w1) target_addr (data x) (unat (align (region w1))) of
                 Inl e \<Rightarrow> Inl e
               | Inr m \<Rightarrow> Inr (Continue (t, emit (EvReadData addr) (w1\<lparr>priv := m\<rparr>)))))"

text \<open>The body of the loop of \<open>tm_read\<close> for a read-only transaction.\<close>

definition tm_read_ro_body ::
  "64 word \<Rightarrow> 64 word \<Rightarrow> 64 word \<Rightarrow> Transaction \<times> world
     \<Rightarrow> error + (Transaction \<times> world, outcome) flow" where
  "tm_read_ro_body source target offset tw =
     (let addr = source + offset
      in case Region_word (region (snd tw)) addr of
           Inl e \<Rightarrow> Inl e
         | Inr x \<Rightarrow> read_shared addr x (target + offset) tw)"

text \<open>
  The body of the loop of \<open>tm_read\<close> otherwise: the address is put into the read set
  first, then the write set is searched.
\<close>

definition tm_read_rw_body ::
  "64 word \<Rightarrow> 64 word \<Rightarrow> 64 word \<Rightarrow> Transaction \<times> world
     \<Rightarrow> error + (Transaction \<times> world, outcome) flow" where
  "tm_read_rw_body source target offset tw =
     (let addr = source + offset;
          t = (fst tw)\<lparr>read_set := emplace addr (read_set (fst tw))\<rparr>;
          w = snd tw
      in case Region_word (region w) addr of
           Inl e \<Rightarrow> Inl e
         | Inr x \<Rightarrow>
             (case map_of (write_set t) addr of
                Some buf \<Rightarrow>
                  (case memcpy_out (priv w) (target + offset) buf (unat (align (region w))) of
                     Inl e \<Rightarrow> Inl e
                   | Inr m \<Rightarrow> Inr (Continue (t, w\<lparr>priv := m\<rparr>)))
              | None \<Rightarrow> read_shared addr x (target + offset) (t, w)))"

definition tm_read :: "world \<Rightarrow> Transaction \<Rightarrow> 64 word \<Rightarrow> 64 word \<Rightarrow> 64 word \<Rightarrow> error + outcome" where
  "tm_read w t source sz target =
     (case for_offsets sz (align (region w))
             (if ro t then tm_read_ro_body source target else tm_read_rw_body source target)
             0 (t, w) of
        Inl e \<Rightarrow> Inl e
      | Inr (Return r) \<Rightarrow> Inr r
      | Inr (Continue tw) \<Rightarrow> Inr (True, Some (fst tw), snd tw))"

text \<open>\<open>transaction->wv = region->gvc.fetch_add(1) + 1\<close>\<close>

definition assign_wv :: "world \<Rightarrow> Transaction \<Rightarrow> Transaction \<times> world" where
  "assign_wv w t =
     (t\<lparr>wv := gvc (region w) + 1\<rparr>,
      emit EvGvcFetchAdd (w\<lparr>region := (region w)\<lparr>gvc := gvc (region w) + 1\<rparr>\<rparr>))"

definition tm_end :: "world \<Rightarrow> Transaction \<Rightarrow> error + outcome" where
  "tm_end w t =
     (if ro t then Inr (True, None, w)
      else
        (case LockWriteSet w t of
           Inl e \<Rightarrow> Inl e
         | Inr lr \<Rightarrow>
             if \<not> fst lr then Inr (False, None, snd lr)
             else
               (let t2 = fst (assign_wv (snd lr) t); w2 = snd (assign_wv (snd lr) t)
                in if rv t2 + 1 = wv t2 then
                     (case Commit w2 t2 of Inl e \<Rightarrow> Inl e | Inr w3 \<Rightarrow> Inr (True, None, w3))
                   else
                     (case ValidateReadSet w2 t2 of
                        Inl e \<Rightarrow> Inl e
                      | Inr vr \<Rightarrow>
                          if \<not> fst vr then
                            (case UnlockWriteSet (snd vr) t2 of
                               Inl e \<Rightarrow> Inl e
                             | Inr w4 \<Rightarrow> Inr (False, None, w4))
                          else
                            (case Commit (snd vr) t2 of
                               Inl e \<Rightarrow> Inl e
                             | Inr w4 \<Rightarrow> Inr (True, None, w4))))))"

text \<open>
  \<open>tm_alloc\<close>: \<open>*target = region->Alloc(size); return Alloc::success\<close>. The address
  stored through \<open>target\<close> is returned with the status. The enumeration \<open>Alloc\<close> is
  declared in \<open>tm.hpp\<close>; its values are those that \<open>tm.cpp\<close> names.
\<close>

datatype Alloc = Alloc_success | Alloc_nomem | Alloc_abort



section \<open>Notions used in the statements\<close>

subsection \<open>The words of an access\<close>

text \<open>
  When the size is \<open>m\<close> times the alignment, the loop over the words of an access visits
  the offsets \<open>0\<close>, \<open>align\<close>, ..., \<open>(m - 1) * align\<close>: \<open>for_offsets\<close> is then
  \<open>run_offsets\<close> on the list \<open>word_offsets align 0 m\<close> (lemma \<open>for_offsets_run\<close>).
\<close>

fun run_offsets :: "(64 word \<Rightarrow> 's \<Rightarrow> error + ('s, 'r) flow) \<Rightarrow> 64 word list \<Rightarrow> 's \<Rightarrow> error + ('s, 'r) flow" where
  "run_offsets body [] s = Inr (Continue s)"
| "run_offsets body (x # xs) s =
     (case body x s of
        Inl e \<Rightarrow> Inl e
      | Inr (Return r) \<Rightarrow> Inr (Return r)
      | Inr (Continue s') \<Rightarrow> run_offsets body xs s')"

definition word_offsets :: "64 word \<Rightarrow> nat \<Rightarrow> nat \<Rightarrow> 64 word list" where
  "word_offsets al j m = map (\<lambda>k. of_nat k * al) [j..<m]"

subsection \<open>Reading a word\<close>

text \<open>
  \<open>staged t a\<close> is the buffer that \<open>tm_read\<close> finds in the write set for the address
  \<open>a\<close>; a read-only transaction does not look into the write set.
\<close>

definition staged :: "Transaction \<Rightarrow> 64 word \<Rightarrow> 8 word list option" where
  "staged t a = (if ro t then None else map_of (write_set t) a)"

text \<open>
  The word at \<open>a\<close> is stale for \<open>t\<close> when the sample of its lock is locked or has a
  version above \<open>rv\<close>: the test of \<open>tm_read\<close> and of \<open>ValidateReadSet\<close>.
\<close>

definition stale :: "Region \<Rightarrow> Transaction \<Rightarrow> 64 word \<Rightarrow> bool" where
  "stale r t a =
     (case Region_word r a of
        Inl e \<Rightarrow> False
      | Inr x \<Rightarrow> locked (lock x) \<or> unat (rv t) < version (lock x))"

definition word_locked :: "Region \<Rightarrow> 64 word \<Rightarrow> bool" where
  "word_locked r a = (case Region_word r a of Inl e \<Rightarrow> False | Inr x \<Rightarrow> locked (lock x))"

text \<open>
  The read of the word at \<open>a\<close> is free of undefined behaviour: the word exists, and the
  \<open>memcpy\<close> of \<open>align\<close> bytes that the read performs, from the staged buffer or from the
  payload, stays inside its source.
\<close>

definition access_ok :: "Region \<Rightarrow> Transaction \<Rightarrow> 64 word \<Rightarrow> bool" where
  "access_ok r t a =
     (case Region_word r a of
        Inl e \<Rightarrow> False
      | Inr x \<Rightarrow>
          (case staged t a of
             Some buf \<Rightarrow> unat (align r) \<le> length buf
           | None \<Rightarrow> stale r t a \<or> unat (align r) \<le> length (data x)))"

definition clean :: "Region \<Rightarrow> Transaction \<Rightarrow> 64 word \<Rightarrow> bool" where
  "clean r t a = (access_ok r t a \<and> \<not> (staged t a = None \<and> stale r t a))"

text \<open>
  What a read of the word at \<open>a\<close> that does not abort does: the bytes it copies to the
  target (\<open>chunk\<close>), the operations it issues on shared state (\<open>read_events\<close>), its effect
  on the transaction and the world (\<open>read_one\<close>), and the effect of such reads at a list
  of offsets (\<open>reads_done\<close>).
\<close>

definition chunk :: "Region \<Rightarrow> Transaction \<Rightarrow> 64 word \<Rightarrow> 8 word list" where
  "chunk r t a =
     take (unat (align r))
       (case staged t a of
          Some buf \<Rightarrow> buf
        | None \<Rightarrow> (case Region_word r a of Inl e \<Rightarrow> [] | Inr x \<Rightarrow> data x))"

definition read_events :: "Transaction \<Rightarrow> 64 word \<Rightarrow> event list" where
  "read_events t a = (if staged t a = None then [EvSample a, EvReadData a] else [])"

definition read_one :: "64 word \<Rightarrow> 64 word \<Rightarrow> 64 word \<Rightarrow> Transaction \<times> world \<Rightarrow> Transaction \<times> world" where
  "read_one src tgt off tw =
     (let t = fst tw; w = snd tw; a = src + off
      in (t\<lparr>read_set := (if ro t then read_set t else emplace a (read_set t))\<rparr>,
          w\<lparr>priv := store_bytes (priv w) (tgt + off) (chunk (region w) t a),
            trace := trace w @ read_events t a\<rparr>))"

fun reads_done :: "64 word \<Rightarrow> 64 word \<Rightarrow> 64 word list \<Rightarrow> Transaction \<times> world \<Rightarrow> Transaction \<times> world" where
  "reads_done src tgt [] tw = tw"
| "reads_done src tgt (x # xs) tw = reads_done src tgt xs (read_one src tgt x tw)"

text \<open>The body of the loop that \<open>tm_read\<close> runs.\<close>

definition tm_read_body :: "bool \<Rightarrow> 64 word \<Rightarrow> 64 word \<Rightarrow> 64 word \<Rightarrow> Transaction \<times> world
     \<Rightarrow> error + (Transaction \<times> world, outcome) flow" where
  "tm_read_body is_ro src tgt = (if is_ro then tm_read_ro_body src tgt else tm_read_rw_body src tgt)"

subsection \<open>The write set and its locks\<close>

text \<open>The keys of a \<open>std::map\<close> are strictly ascending.\<close>

definition ascending :: "(64 word \<times> 'v) list \<Rightarrow> bool" where
  "ascending ws = sorted_wrt (<) (map fst ws)"

text \<open>What \<open>LockWriteSet\<close> does for one entry: it copies the word and tries the lock of the copy.\<close>

definition try_events :: "64 word \<Rightarrow> event list" where
  "try_events a = [EvCopyWord a, EvTryLockCopy a]"

subsection \<open>The shape of the region\<close>

definition Region_shape :: "Region \<Rightarrow> bool" where
  "Region_shape r = (length (mem r) = 512 \<and> list_all (\<lambda>s. length (words s) = 1024) (mem r))"


subsection \<open>Small concrete states\<close>

text \<open>
  A region of alignment 8 whose segment 1 holds the given words (segment 0 is empty), a
  world around it whose private memory holds at every address the low byte of the
  address, and a transaction given by its fields. The first word of segment 1 has the
  address \<open>0x100000000\<close>, the second \<open>0x100000008\<close>, the third \<open>0x100000010\<close>.
\<close>

definition ex_word :: "bool \<Rightarrow> nat \<Rightarrow> 8 word \<Rightarrow> Word" where
  "ex_word lk v b = \<lparr>lock = \<lparr>locked = lk, version = v\<rparr>, data = replicate 8 b\<rparr>"

definition ex_region :: "Word list \<Rightarrow> 32 word \<Rightarrow> Region" where
  "ex_region ws g =
     \<lparr>align = 8,
      mem = [\<lparr>seg_size = 64, words = []\<rparr>, \<lparr>seg_size = 64, words = ws\<rparr>],
      gvc = g, segs = 1\<rparr>"

definition ex_world :: "Word list \<Rightarrow> 32 word \<Rightarrow> world" where
  "ex_world ws g = \<lparr>region = ex_region ws g, priv = (\<lambda>a. ucast a), trace = []\<rparr>"

definition ex_tx :: "bool \<Rightarrow> 32 word \<Rightarrow> 64 word list \<Rightarrow> (64 word \<times> 8 word list) list \<Rightarrow> Transaction" where
  "ex_tx is_ro v rs ws = \<lparr>ro = is_ro, rv = v, wv = 0, read_set = rs, write_set = ws\<rparr>"

section \<open>Auxiliary facts\<close>


subsection \<open>The constructed region\<close>

lemma align_Region_init: "align (Region_init sz al) = al"
  by (simp add: Region_init_def)

subsection \<open>Word arithmetic and the loop over the offsets\<close>

lemma unat_of_nat64: "n < 2 ^ 64 \<Longrightarrow> unat (of_nat n :: 64 word) = n"
  by (simp add: unat_of_nat)

lemma of_nat_inj64:
  "x < 2 ^ 64 \<Longrightarrow> y < 2 ^ 64 \<Longrightarrow> ((of_nat x :: 64 word) = of_nat y) = (x = y)"
  by (metis unat_of_nat64)

lemma unat_bound64: "unat (x :: 64 word) < 2 ^ 64"
  using unsigned_less [of x] by simp

lemma unat_of_nat_times:
  assumes "k * unat (al :: 64 word) < 2 ^ 64"
  shows "unat (of_nat k * al) = k * unat al"
proof -
  have "of_nat k * al = (of_nat (k * unat al) :: 64 word)" by simp
  then show ?thesis using unat_of_nat64 [OF assms] by (simp only:)
qed

lemma word_offsets_Cons:
  "j < m \<Longrightarrow> word_offsets al j m = of_nat j * al # word_offsets al (Suc j) m"
  by (simp add: word_offsets_def upt_conv_Cons)

lemma word_offsets_Nil: "word_offsets al m m = []"
  by (simp add: word_offsets_def)

lemma for_offsets_run_aux:
  assumes al: "0 < unat al" and sz: "unat sz = m * unat al"
  shows "j \<le> m \<Longrightarrow> for_offsets sz al body (of_nat j * al) s = run_offsets body (word_offsets al j m) s"
proof (induction "m - j" arbitrary: j s)
  case 0
  then have "j = m" by simp
  have bound: "m * unat al < 2 ^ 64" using sz unat_bound64 [of sz] by simp
  have "unat (of_nat j * al) = unat sz"
    using unat_of_nat_times [OF bound] sz \<open>j = m\<close> by simp
  then have "of_nat j * al = sz" by (simp add: word_unat_eq_iff)
  then show ?case using \<open>j = m\<close>
    by (simp add: word_offsets_Nil for_offsets.simps [of sz al body sz])
next
  case (Suc d)
  then have jm: "j < m" by simp
  have bound: "m * unat al < 2 ^ 64" using sz unat_bound64 [of sz] by simp
  have le1: "j * unat al < m * unat al" using jm al by simp
  have le2: "Suc j * unat al \<le> m * unat al" using jm by (simp add: Suc_leI mult_le_mono1 del: mult_Suc)
  have u1: "unat (of_nat j * al) = j * unat al"
    by (rule unat_of_nat_times) (use le1 bound in linarith)
  have u2: "unat (of_nat (Suc j) * al) = Suc j * unat al"
    by (rule unat_of_nat_times) (use le2 bound in linarith)
  have next_off: "of_nat j * al + al = of_nat (Suc j) * al"
    by (simp add: algebra_simps)
  have c1: "of_nat j * al < sz"
    using le1 by (simp add: word_less_nat_alt u1 sz)
  have c2: "of_nat j * al < of_nat (Suc j) * al"
    unfolding word_less_nat_alt u1 u2 using al by simp
  have ih: "\<And>s'. for_offsets sz al body (of_nat (Suc j) * al) s' = run_offsets body (word_offsets al (Suc j) m) s'"
    using Suc.hyps(1) [of "Suc j"] Suc.hyps(2) jm by simp
  show ?case
    apply (subst for_offsets.simps)
    apply (simp only: c1 c2 if_True next_off ih word_offsets_Cons [OF jm] run_offsets.simps)
    done
qed

lemma for_offsets_run:
  assumes "0 < unat al" "unat sz = m * unat al"
  shows "for_offsets sz al body 0 s = run_offsets body (word_offsets al 0 m) s"
  using for_offsets_run_aux [OF assms, of 0 body s] by simp

subsection \<open>A read of one word and of a list of words\<close>

lemma region_emit [simp]: "region (emit e w) = region w"
  by (simp add: emit_def)

lemma priv_emit [simp]: "priv (emit e w) = priv w"
  by (simp add: emit_def)

lemma trace_emit [simp]: "trace (emit e w) = trace w @ [e]"
  by (simp add: emit_def)

lemma staged_read_set [simp]: "staged (t\<lparr>read_set := rs\<rparr>) a = staged t a"
  by (simp add: staged_def)

lemma stale_read_set [simp]: "stale r (t\<lparr>read_set := rs\<rparr>) a = stale r t a"
  by (simp add: stale_def split: sum.splits)

lemma read_step:
  assumes "access_ok (region w) t (src + off)"
  shows "tm_read_body (ro t) src tgt off (t, w) =
     (if staged t (src + off) = None \<and> stale (region w) t (src + off)
      then Inr (Return (False, None, emit (EvSample (src + off)) w))
      else Inr (Continue (read_one src tgt off (t, w))))"
proof (cases "ro t")
  case True
  with assms show ?thesis
    by (auto simp: tm_read_body_def tm_read_ro_body_def read_shared_def
        access_ok_def staged_def stale_def chunk_def read_one_def read_events_def memcpy_out_def
        Sample_def Let_def emit_def split: sum.splits)
next
  case False
  with assms show ?thesis
    by (auto simp: tm_read_body_def tm_read_rw_body_def read_shared_def
        access_ok_def staged_def stale_def chunk_def read_one_def read_events_def memcpy_out_def
        Sample_def Let_def emit_def split: sum.splits option.splits)
qed

lemma read_one_simps [simp]:
  "ro (fst (read_one src tgt off tw)) = ro (fst tw)"
  "rv (fst (read_one src tgt off tw)) = rv (fst tw)"
  "wv (fst (read_one src tgt off tw)) = wv (fst tw)"
  "write_set (fst (read_one src tgt off tw)) = write_set (fst tw)"
  "region (snd (read_one src tgt off tw)) = region (snd tw)"
  by (simp_all add: read_one_def Let_def)

lemma staged_cong: "ro t' = ro t \<Longrightarrow> write_set t' = write_set t \<Longrightarrow> staged t' = staged t"
  by (rule ext) (simp add: staged_def)

lemma stale_cong: "rv t' = rv t \<Longrightarrow> stale r t' = stale r t"
  by (rule ext) (simp add: stale_def split: sum.splits)

lemma access_ok_cong:
  assumes "ro t' = ro t" "rv t' = rv t" "write_set t' = write_set t"
  shows "access_ok r t' = access_ok r t"
  unfolding access_ok_def staged_cong [OF assms(1,3)] stale_cong [OF assms(2)] ..

lemma chunk_cong:
  assumes "ro t' = ro t" "write_set t' = write_set t"
  shows "chunk r t' = chunk r t"
  unfolding chunk_def staged_cong [OF assms] ..

lemma read_events_cong:
  assumes "ro t' = ro t" "write_set t' = write_set t"
  shows "read_events t' = read_events t"
  unfolding read_events_def staged_cong [OF assms] ..

lemma reads_done_simps [simp]:
  "ro (fst (reads_done src tgt os tw)) = ro (fst tw)"
  "rv (fst (reads_done src tgt os tw)) = rv (fst tw)"
  "wv (fst (reads_done src tgt os tw)) = wv (fst tw)"
  "write_set (fst (reads_done src tgt os tw)) = write_set (fst tw)"
  "region (snd (reads_done src tgt os tw)) = region (snd tw)"
  by (induction os arbitrary: tw; simp)+

lemma clean_cong:
  "ro t' = ro t \<Longrightarrow> rv t' = rv t \<Longrightarrow> write_set t' = write_set t \<Longrightarrow> clean r t' = clean r t"
  by (rule ext) (simp add: clean_def access_ok_cong [of t' t] staged_cong [of t' t] stale_cong [of t' t] cong: conj_cong)

lemma run_reads_ok:
  "\<forall>x\<in>set os. clean (region w) t (src + x) \<Longrightarrow>
   run_offsets (tm_read_body (ro t) src tgt) os (t, w) = Inr (Continue (reads_done src tgt os (t, w)))"
proof (induction os arbitrary: t w)
  case Nil
  show ?case by simp
next
  case (Cons x xs)
  obtain t1 w1 where one: "read_one src tgt x (t, w) = (t1, w1)" by (cases "read_one src tgt x (t, w)")
  have inv: "ro t1 = ro t" "rv t1 = rv t" "write_set t1 = write_set t" "region w1 = region w"
    using read_one_simps [of src tgt x "(t, w)"] by (simp_all add: one)
  have step: "tm_read_body (ro t) src tgt x (t, w) = Inr (Continue (t1, w1))"
    using Cons.prems read_step [of w t src x tgt] by (simp add: clean_def one)
  have "\<forall>y\<in>set xs. clean (region w1) t1 (src + y)"
    using Cons.prems by (simp add: inv clean_cong [OF inv(1-3)])
  then have "run_offsets (tm_read_body (ro t1) src tgt) xs (t1, w1) = Inr (Continue (reads_done src tgt xs (t1, w1)))"
    by (rule Cons.IH)
  then show ?case by (simp add: step one inv)
qed

lemma run_reads_abort:
  assumes "\<forall>x\<in>set pre. clean (region w) t (src + x)"
    and "access_ok (region w) t (src + x)"
    and "staged t (src + x) = None" "stale (region w) t (src + x)"
  shows "run_offsets (tm_read_body (ro t) src tgt) (pre @ x # post) (t, w) =
           Inr (Return (False, None, emit (EvSample (src + x)) (snd (reads_done src tgt pre (t, w)))))"
  using assms
proof (induction pre arbitrary: t w)
  case Nil
  then show ?case using read_step [of w t src x tgt] by simp
next
  case (Cons y ys)
  obtain t1 w1 where one: "read_one src tgt y (t, w) = (t1, w1)" by (cases "read_one src tgt y (t, w)")
  have inv: "ro t1 = ro t" "rv t1 = rv t" "write_set t1 = write_set t" "region w1 = region w"
    using read_one_simps [of src tgt y "(t, w)"] by (simp_all add: one)
  have step: "tm_read_body (ro t) src tgt y (t, w) = Inr (Continue (t1, w1))"
    using Cons.prems(1) read_step [of w t src y tgt] by (simp add: clean_def one)
  have "run_offsets (tm_read_body (ro t1) src tgt) (ys @ x # post) (t1, w1) =
           Inr (Return (False, None, emit (EvSample (src + x)) (snd (reads_done src tgt ys (t1, w1)))))"
    using Cons.prems
    by (intro Cons.IH)
       (simp_all add: inv clean_cong [OF inv(1-3)] access_ok_cong [OF inv(1-3)]
          staged_cong [OF inv(1,3)] stale_cong [OF inv(2)])
  then show ?case by (simp add: step one inv)
qed

subsection \<open>Private memory after a list of reads\<close>

lemma store_bytes_other:
  "(\<forall>i<length bs. q \<noteq> p + of_nat i) \<Longrightarrow> store_bytes m p bs q = m q"
proof (induction bs arbitrary: m p)
  case Nil
  show ?case by simp
next
  case (Cons b bs)
  have "q \<noteq> p" using Cons.prems [rule_format, of 0] by simp
  moreover have "\<forall>i<length bs. q \<noteq> p + 1 + of_nat i"
    using Cons.prems by (auto simp: add.assoc dest: spec [where x = "Suc i" for i])
  ultimately have "store_bytes (m(p := b)) (p + 1) bs q = (m(p := b)) q" "q \<noteq> p"
    using Cons.IH [of "p + 1" "m(p := b)"] by blast+
  then show ?case by simp
qed

lemma store_bytes_nth:
  "i < length bs \<Longrightarrow> length bs \<le> 2 ^ 64 \<Longrightarrow> store_bytes m p bs (p + of_nat i) = bs ! i"
proof (induction bs arbitrary: m p i)
  case Nil
  then show ?case by simp
next
  case (Cons b bs)
  show ?case
  proof (cases i)
    case 0
    have "\<forall>j<length bs. p \<noteq> p + 1 + of_nat j"
    proof (intro allI impI)
      fix j assume "j < length bs"
      then have "Suc j < 2 ^ 64" using Cons.prems(2) by simp
      then have "(of_nat (Suc j) :: 64 word) \<noteq> 0"
        using of_nat_inj64 [of "Suc j" 0] by simp
      then show "p \<noteq> p + 1 + of_nat j" by (simp add: add.assoc)
    qed
    then have "store_bytes (m(p := b)) (p + 1) bs p = (m(p := b)) p"
      by (rule store_bytes_other)
    then show ?thesis using 0 by simp
  next
    case (Suc j)
    then have "store_bytes (m(p := b)) (p + 1) bs (p + 1 + of_nat j) = bs ! j"
      using Cons.prems by (intro Cons.IH) simp_all
    then show ?thesis using Suc by (simp add: add.assoc)
  qed
qed

lemma length_chunk: "length (chunk r t a) \<le> unat (align r)"
  by (simp add: chunk_def)

lemma reads_done_priv_frame:
  "(\<forall>x\<in>set os. \<forall>i<unat (align (region w)). q \<noteq> tgt + x + of_nat i) \<Longrightarrow>
   priv (snd (reads_done src tgt os (t, w))) q = priv w q"
proof (induction os arbitrary: t w)
  case Nil
  show ?case by simp
next
  case (Cons x xs)
  obtain t1 w1 where one: "read_one src tgt x (t, w) = (t1, w1)" by (cases "read_one src tgt x (t, w)")
  have inv: "region w1 = region w"
    using read_one_simps(5) [of src tgt x "(t, w)"] by (simp add: one)
  have p1: "priv w1 = store_bytes (priv w) (tgt + x) (chunk (region w) t (src + x))"
    using one by (auto simp: read_one_def Let_def)
  have "priv w1 q = priv w q"
    unfolding p1 using Cons.prems length_chunk [of "region w" t "src + x"]
    by (intro store_bytes_other) auto
  moreover have "priv (snd (reads_done src tgt xs (t1, w1))) q = priv w1 q"
    using Cons.prems by (intro Cons.IH) (simp add: inv)
  ultimately show ?case by (simp add: one)
qed

lemma reads_done_priv:
  assumes "x \<in> set os" "i < length (chunk (region w) t (src + x))"
    and "\<forall>y\<in>set os. y \<noteq> x \<longrightarrow> (\<forall>j<unat (align (region w)). tgt + y + of_nat j \<noteq> tgt + x + of_nat i)"
  shows "priv (snd (reads_done src tgt os (t, w))) (tgt + x + of_nat i) = chunk (region w) t (src + x) ! i"
  using assms
proof (induction os arbitrary: t w)
  case Nil
  then show ?case by simp
next
  case (Cons y ys)
  obtain t1 w1 where one: "read_one src tgt y (t, w) = (t1, w1)" by (cases "read_one src tgt y (t, w)")
  have inv: "ro t1 = ro t" "rv t1 = rv t" "write_set t1 = write_set t" "region w1 = region w"
    using read_one_simps [of src tgt y "(t, w)"] by (simp_all add: one)
  have p1: "priv w1 = store_bytes (priv w) (tgt + y) (chunk (region w) t (src + y))"
    using one by (auto simp: read_one_def Let_def)
  show ?case
  proof (cases "x \<in> set ys")
    case True
    then have "priv (snd (reads_done src tgt ys (t1, w1))) (tgt + x + of_nat i) = chunk (region w1) t1 (src + x) ! i"
      using Cons.prems by (intro Cons.IH) (simp_all add: inv chunk_cong [OF inv(1,3)])
    then show ?thesis by (simp add: one inv chunk_cong [OF inv(1,3)])
  next
    case False
    then have xy: "x = y" using Cons.prems(1) by simp
    have "\<forall>z\<in>set ys. \<forall>j<unat (align (region w1)). tgt + x + of_nat i \<noteq> tgt + z + of_nat j"
    proof (intro ballI allI impI)
      fix z j assume z: "z \<in> set ys" and j: "j < unat (align (region w1))"
      from z False have "z \<noteq> x" by blast
      with Cons.prems(3) z j have "tgt + z + of_nat j \<noteq> tgt + x + of_nat i"
        by (simp add: inv)
      then show "tgt + x + of_nat i \<noteq> tgt + z + of_nat j" by (rule not_sym)
    qed
    then have "priv (snd (reads_done src tgt ys (t1, w1))) (tgt + x + of_nat i) = priv w1 (tgt + x + of_nat i)"
      by (rule reads_done_priv_frame)
    also have "\<dots> = chunk (region w) t (src + x) ! i"
      unfolding p1 xy using Cons.prems(2) length_chunk [of "region w" t "src + y"] unat_bound64 [of "align (region w)"]
      by (intro store_bytes_nth) (simp_all add: xy)
    finally show ?thesis by (simp add: one)
  qed
qed

lemma reads_done_trace:
  "trace (snd (reads_done src tgt os (t, w))) = trace w @ concat (map (\<lambda>x. read_events t (src + x)) os)"
proof (induction os arbitrary: t w)
  case Nil
  show ?case by simp
next
  case (Cons y ys)
  obtain t1 w1 where one: "read_one src tgt y (t, w) = (t1, w1)" by (cases "read_one src tgt y (t, w)")
  have inv: "ro t1 = ro t" "write_set t1 = write_set t"
    using read_one_simps [of src tgt y "(t, w)"] by (simp_all add: one)
  have "trace w1 = trace w @ read_events t (src + y)"
    using one by (auto simp: read_one_def Let_def)
  then show ?case using Cons.IH [of t1 w1] by (simp add: one read_events_cong [OF inv])
qed

lemma reads_done_read_set_ro:
  "ro t \<Longrightarrow> read_set (fst (reads_done src tgt os (t, w))) = read_set t"
proof (induction os arbitrary: t w)
  case Nil
  show ?case by simp
next
  case (Cons y ys)
  obtain t1 w1 where one: "read_one src tgt y (t, w) = (t1, w1)" by (cases "read_one src tgt y (t, w)")
  have "ro t1" "read_set t1 = read_set t"
    using one Cons.prems by (auto simp: read_one_def Let_def)
  then show ?case using Cons.IH [of t1 w1] by (simp add: one)
qed

lemma set_emplace [simp]: "set (emplace a xs) = insert a (set xs)"
  by (auto simp: emplace_def)

lemma reads_done_read_set_rw:
  "\<not> ro t \<Longrightarrow> set (read_set (fst (reads_done src tgt os (t, w)))) = set (read_set t) \<union> (\<lambda>x. src + x) ` set os"
proof (induction os arbitrary: t w)
  case Nil
  show ?case by simp
next
  case (Cons y ys)
  obtain t1 w1 where one: "read_one src tgt y (t, w) = (t1, w1)" by (cases "read_one src tgt y (t, w)")
  have "\<not> ro t1" "set (read_set t1) = insert (src + y) (set (read_set t))"
    using one Cons.prems by (auto simp: read_one_def Let_def)
  then show ?case using Cons.IH [of t1 w1] by (simp add: one)
qed

subsection \<open>The write set and a list of writes\<close>

lemma map_of_map_assign: "map_of (map_assign k v xs) = (map_of xs)(k \<mapsto> v)"
  by (induction xs) (auto simp: fun_upd_twist)

lemma keys_map_assign: "fst ` set (map_assign k v xs) = insert k (fst ` set xs)"
  by (induction xs) auto

lemma ascending_map_assign: "ascending xs \<Longrightarrow> ascending (map_assign k v xs)"
proof (induction xs)
  case Nil
  show ?case by (simp add: ascending_def)
next
  case (Cons e es)
  then have es: "ascending es" and lt: "\<forall>y\<in>fst ` set es. fst e < y"
    by (auto simp: ascending_def)
  show ?case
  proof (cases "k < fst e")
    case True
    then show ?thesis using Cons.prems lt by (auto simp: ascending_def)
  next
    case False
    show ?thesis
    proof (cases "k = fst e")
      case True
      then show ?thesis using Cons.prems by (auto simp: ascending_def)
    next
      case ne: False
      with False have "fst e < k" by simp
      then have "\<forall>y\<in>fst ` set (map_assign k v es). fst e < y"
        using lt by (simp add: keys_map_assign)
      then show ?thesis using False ne Cons.IH [OF es] by (auto simp: ascending_def)
    qed
  qed
qed

lemma length_load_bytes [simp]: "length (load_bytes m p n) = n"
  by (simp add: load_bytes_def)

lemma nth_load_bytes [simp]: "i < n \<Longrightarrow> load_bytes m p n ! i = m (p + of_nat i)"
  by (simp add: load_bytes_def)

lemma write_step:
  "tm_write_body src tgt off (t, w) =
     Inr (Continue (t\<lparr>write_set :=
            map_assign (tgt + off) (load_bytes (priv w) (src + off) (unat (align (region w))))
              (map_assign (tgt + off) (replicate (unat (align (region w))) 0) (write_set t))\<rparr>, w))"
  by (simp add: tm_write_body_def memcpy_def Let_def)

lemma run_writes:
  "\<exists>t'. run_offsets (tm_write_body src tgt) os (t, w) = Inr (Continue (t', w))
     \<and> ro t' = ro t \<and> rv t' = rv t \<and> wv t' = wv t \<and> read_set t' = read_set t
     \<and> (\<forall>a. map_of (write_set t') a =
            (if a - tgt \<in> set os
             then Some (load_bytes (priv w) (src + (a - tgt)) (unat (align (region w))))
             else map_of (write_set t) a))
     \<and> (ascending (write_set t) \<longrightarrow> ascending (write_set t'))"
proof (induction os arbitrary: t)
  case Nil
  show ?case by simp
next
  case (Cons x xs)
  define t1 where "t1 = t\<lparr>write_set :=
            map_assign (tgt + x) (load_bytes (priv w) (src + x) (unat (align (region w))))
              (map_assign (tgt + x) (replicate (unat (align (region w))) 0) (write_set t))\<rparr>"
  have step: "tm_write_body src tgt x (t, w) = Inr (Continue (t1, w))"
    by (simp add: write_step t1_def)
  have m1: "map_of (write_set t1) a =
      (if a - tgt = x then Some (load_bytes (priv w) (src + (a - tgt)) (unat (align (region w))))
       else map_of (write_set t) a)" for a
    by (auto simp: t1_def map_of_map_assign)
  have a1: "ascending (write_set t) \<longrightarrow> ascending (write_set t1)"
    by (simp add: t1_def ascending_map_assign)
  have f1: "ro t1 = ro t" "rv t1 = rv t" "wv t1 = wv t" "read_set t1 = read_set t"
    by (simp_all add: t1_def)
  from Cons.IH [of t1] obtain t' where
    r: "run_offsets (tm_write_body src tgt) xs (t1, w) = Inr (Continue (t', w))"
    and f: "ro t' = ro t1" "rv t' = rv t1" "wv t' = wv t1" "read_set t' = read_set t1"
    and m: "\<forall>a. map_of (write_set t') a =
            (if a - tgt \<in> set xs
             then Some (load_bytes (priv w) (src + (a - tgt)) (unat (align (region w))))
             else map_of (write_set t1) a)"
    and a: "ascending (write_set t1) \<longrightarrow> ascending (write_set t')"
    by blast
  show ?case
    apply (rule exI [of _ t'])
    using r f m a a1 by (simp add: step f1 m1)
qed

subsection \<open>Invariants of the loop\<close>

lemma for_offsets_invariant_aux:
  "\<forall>off s s'. I s \<longrightarrow> body off s = Inr (Continue s') \<longrightarrow> I s' \<Longrightarrow>
   \<forall>off s r. I s \<longrightarrow> body off s = Inr (Return r) \<longrightarrow> Q r \<Longrightarrow>
   I s \<Longrightarrow> for_offsets sz al body off s = Inr res \<Longrightarrow>
   (case res of Continue s' \<Rightarrow> I s' | Return r \<Rightarrow> Q r)"
proof (induction sz al body off s rule: for_offsets.induct)
  case (1 sz al body offset s)
  note step = "1.prems"(1) and ret = "1.prems"(2) and inv = "1.prems"(3) and run = "1.prems"(4)
  show ?case
  proof (cases "offset < sz")
    case False
    then have "res = Continue s" using run by (subst (asm) for_offsets.simps) simp
    then show ?thesis using inv by simp
  next
    case True
    show ?thesis
    proof (cases "body offset s")
      case (Inl e)
      then show ?thesis using run True by (subst (asm) for_offsets.simps) simp
    next
      case (Inr fl)
      show ?thesis
      proof (cases fl)
        case (Return r)
        then have "res = Return r" using run True Inr by (subst (asm) for_offsets.simps) simp
        moreover have "Q r" using ret inv Inr Return by blast
        ultimately show ?thesis by simp
      next
        case (Continue s')
        have adv: "offset < offset + al" and rec: "for_offsets sz al body (offset + al) s' = Inr res"
          using run True Inr Continue by (subst (asm) for_offsets.simps, simp split: if_splits)+
        have "I s'" using step inv Inr Continue by blast
        then show ?thesis using "1.IH" [OF True Inr Continue adv step ret _ rec] by simp
      qed
    qed
  qed
qed

lemma for_offsets_invariant:
  assumes "\<And>off s s'. I s \<Longrightarrow> body off s = Inr (Continue s') \<Longrightarrow> I s'"
    and "\<And>off s r. I s \<Longrightarrow> body off s = Inr (Return r) \<Longrightarrow> Q r"
    and "I s" and "for_offsets sz al body off s = Inr res"
  shows "case res of Continue s' \<Rightarrow> I s' | Return r \<Rightarrow> Q r"
  using for_offsets_invariant_aux [of I body Q s sz al off res] assms by blast

subsection \<open>The shape of the region and accesses out of range\<close>



lemma Region_word_update_facts:
  assumes "Region_word_update r a f = Inr r'"
  shows "align r' = align r" "gvc r' = gvc r" "segs r' = segs r"
    "length (mem r') = length (mem r)"
    "\<And>s. s < length (mem r) \<Longrightarrow> length (words (mem r' ! s)) = length (words (mem r ! s))"
  using assms
  by (auto simp: Region_word_update_def nth_list_update split: sum.splits prod.splits if_splits)






lemma assign_wv_shape [simp]: "Region_shape (region (snd (assign_wv w t))) = Region_shape (region w)"
  by (simp add: assign_wv_def Region_shape_def)


lemma tm_write_frame:
  assumes "tm_write w t src sz tgt = Inr res"
  shows "snd (snd res) = w"
proof -
  from assms obtain fl where run: "for_offsets sz (align (region w)) (tm_write_body src tgt) 0 (t, w) = Inr fl"
    by (auto simp: tm_write_def split: sum.splits)
  have "case fl of Continue s' \<Rightarrow> snd s' = w | Return r \<Rightarrow> False"
    by (rule for_offsets_invariant [where I = "\<lambda>s. snd s = w", OF _ _ _ run])
       (auto simp: write_step)
  then show ?thesis using assms run by (auto simp: tm_write_def split: flow.splits)
qed






subsection \<open>The results of tm_write and tm_read\<close>

lemma upt_8: "[0..<8] = [0, 1, 2, 3, 4, 5, 6, 7]"
  by code_simp

lemma load_bytes_8:
  "load_bytes m p 8 = [m p, m (p + 1), m (p + 2), m (p + 3), m (p + 4), m (p + 5), m (p + 6), m (p + 7)]"
  by (simp add: load_bytes_def upt_8)

lemma tm_read_ro_result:
  assumes "ro t" "tm_read w t src sz tgt = Inr res"
  shows "case fst (snd res) of None \<Rightarrow> \<not> fst res | Some t' \<Rightarrow> fst res \<and> t' = t"
proof -
  from assms obtain fl where run: "for_offsets sz (align (region w)) (tm_read_ro_body src tgt) 0 (t, w) = Inr fl"
    by (auto simp: tm_read_def split: sum.splits)
  have "case fl of Continue s' \<Rightarrow> fst s' = t | Return r \<Rightarrow> \<not> fst r \<and> fst (snd r) = None"
    by (rule for_offsets_invariant [where I = "\<lambda>s. fst s = t", OF _ _ _ run])
       (auto simp: tm_read_ro_body_def read_shared_def Let_def split: sum.splits if_splits)
  then show ?thesis using assms run by (auto simp: tm_read_def split: flow.splits)
qed

lemma tm_write_result:
  assumes "0 < unat (align (region w))" and "unat sz = m * unat (align (region w))"
  shows "\<exists>t'. tm_write w t src sz tgt = Inr (True, Some t', w)
     \<and> (\<forall>k<m. map_of (write_set t') (tgt + of_nat k * align (region w)) =
           Some (load_bytes (priv w) (src + of_nat k * align (region w)) (unat (align (region w)))))
     \<and> (\<forall>a. (\<forall>k<m. a \<noteq> tgt + of_nat k * align (region w)) \<longrightarrow>
           map_of (write_set t') a = map_of (write_set t) a)
     \<and> ro t' = ro t \<and> rv t' = rv t \<and> wv t' = wv t \<and> read_set t' = read_set t"
proof -
  let ?al = "align (region w)"
  from run_writes [of src tgt "word_offsets ?al 0 m" t w] obtain t' where
    r: "run_offsets (tm_write_body src tgt) (word_offsets ?al 0 m) (t, w) = Inr (Continue (t', w))"
    and f: "ro t' = ro t" "rv t' = rv t" "wv t' = wv t" "read_set t' = read_set t"
    and mp: "\<forall>a. map_of (write_set t') a =
            (if a - tgt \<in> set (word_offsets ?al 0 m)
             then Some (load_bytes (priv w) (src + (a - tgt)) (unat ?al))
             else map_of (write_set t) a)"
    by blast
  have res: "tm_write w t src sz tgt = Inr (True, Some t', w)"
    by (simp add: tm_write_def for_offsets_run [OF assms] r)
  have mem: "(x \<in> set (word_offsets ?al 0 m)) = (\<exists>k<m. x = of_nat k * ?al)" for x
    by (auto simp: word_offsets_def)
  have "\<forall>k<m. map_of (write_set t') (tgt + of_nat k * ?al) =
           Some (load_bytes (priv w) (src + of_nat k * ?al) (unat ?al))"
    using mp by (auto simp: mem)
  moreover have "\<forall>a. (\<forall>k<m. a \<noteq> tgt + of_nat k * ?al) \<longrightarrow>
           map_of (write_set t') a = map_of (write_set t) a"
  proof (intro allI impI)
    fix a assume ne: "\<forall>k<m. a \<noteq> tgt + of_nat k * ?al"
    have "a - tgt \<notin> set (word_offsets ?al 0 m)"
    proof
      assume "a - tgt \<in> set (word_offsets ?al 0 m)"
      then obtain k where "k < m" "a - tgt = of_nat k * ?al" by (auto simp: mem)
      then have "k < m" "a = tgt + of_nat k * ?al" by (simp_all add: algebra_simps)
      with ne show False by blast
    qed
    then show "map_of (write_set t') a = map_of (write_set t) a" using mp by simp
  qed
  ultimately show ?thesis using res f by blast
qed

lemma word_offsets_set: "(x \<in> set (word_offsets al 0 m)) = (\<exists>k<m. x = of_nat k * al)"
  by (auto simp: word_offsets_def)

lemma word_offsets_split:
  "k < m \<Longrightarrow> word_offsets al 0 m = word_offsets al 0 k @ of_nat k * al # word_offsets al (Suc k) m"
proof -
  assume "k < m"
  then have "[0..<m] = [0..<k] @ k # [Suc k..<m]"
    by (metis le_add1 less_imp_add_positive upt_add_eq_append upt_conv_Cons zero_le add_0)
  then show ?thesis by (simp add: word_offsets_def)
qed

lemma offsets_disjoint:
  assumes "m * unat (al :: 64 word) < 2 ^ 64" "k < m" "k' < m" "k \<noteq> k'" "i < unat al" "j < unat al"
  shows "tgt + of_nat k' * al + of_nat j \<noteq> tgt + of_nat k * al + of_nat i"
proof
  assume eq: "tgt + of_nat k' * al + of_nat j = tgt + of_nat k * al + of_nat i"
  have b1: "k * unat al + i < m * unat al"
  proof -
    have "k * unat al + i < Suc k * unat al" using assms(5) by simp
    also have "\<dots> \<le> m * unat al" using assms(2) by (simp add: Suc_leI mult_le_mono1 del: mult_Suc)
    finally show ?thesis .
  qed
  have b2: "k' * unat al + j < m * unat al"
  proof -
    have "k' * unat al + j < Suc k' * unat al" using assms(6) by simp
    also have "\<dots> \<le> m * unat al" using assms(3) by (simp add: Suc_leI mult_le_mono1 del: mult_Suc)
    finally show ?thesis .
  qed
  from eq have "(of_nat (k' * unat al + j) :: 64 word) = of_nat (k * unat al + i)"
    by (simp add: algebra_simps)
  then have "k' * unat al + j = k * unat al + i"
    using of_nat_inj64 [of "k' * unat al + j" "k * unat al + i"] b1 b2 assms(1) by simp
  then have "(k' * unat al + j) div unat al = (k * unat al + i) div unat al" by simp
  then have "k' = k" using assms(5,6) by simp
  with assms(4) show False by simp
qed

lemma tm_read_ok:
  assumes al: "0 < unat (align (region w))" and sz: "unat sz = m * unat (align (region w))"
    and cl: "\<forall>k<m. clean (region w) t (src + of_nat k * align (region w))"
  shows "\<exists>t' w'. tm_read w t src sz tgt = Inr (True, Some t', w')
     \<and> region w' = region w
     \<and> ro t' = ro t \<and> rv t' = rv t \<and> wv t' = wv t \<and> write_set t' = write_set t
     \<and> (ro t \<longrightarrow> read_set t' = read_set t)
     \<and> (\<not> ro t \<longrightarrow> set (read_set t') = set (read_set t) \<union> (\<lambda>k. src + of_nat k * align (region w)) ` {..<m})
     \<and> trace w' = trace w @ concat (map (\<lambda>k. read_events t (src + of_nat k * align (region w))) [0..<m])
     \<and> (\<forall>k<m. \<forall>i<length (chunk (region w) t (src + of_nat k * align (region w))).
           priv w' (tgt + of_nat k * align (region w) + of_nat i)
             = chunk (region w) t (src + of_nat k * align (region w)) ! i)"
proof -
  let ?al = "align (region w)"
  let ?os = "word_offsets ?al 0 m"
  obtain t' w' where fin: "reads_done src tgt ?os (t, w) = (t', w')"
    by (cases "reads_done src tgt ?os (t, w)")
  have "\<forall>x\<in>set ?os. clean (region w) t (src + x)"
    using cl by (auto simp: word_offsets_set)
  then have run: "run_offsets (tm_read_body (ro t) src tgt) ?os (t, w) = Inr (Continue (t', w'))"
    using run_reads_ok [of ?os w t src tgt] by (simp add: fin)
  have res: "tm_read w t src sz tgt = Inr (True, Some t', w')"
    using for_offsets_run [OF al sz, of "tm_read_body (ro t) src tgt" "(t, w)"] run
    by (simp add: tm_read_def tm_read_body_def)
  have inv: "region w' = region w" "ro t' = ro t" "rv t' = rv t" "wv t' = wv t" "write_set t' = write_set t"
    using reads_done_simps [of src tgt ?os "(t, w)"] by (simp_all add: fin)
  have rs1: "ro t \<longrightarrow> read_set t' = read_set t"
    using reads_done_read_set_ro [of t src tgt ?os w] by (simp add: fin)
  have img: "(\<lambda>x. src + x) ` set ?os = (\<lambda>k. src + of_nat k * ?al) ` {..<m}"
    by (auto simp: word_offsets_def)
  have rs2: "\<not> ro t \<longrightarrow> set (read_set t') = set (read_set t) \<union> (\<lambda>k. src + of_nat k * ?al) ` {..<m}"
    using reads_done_read_set_rw [of t src tgt ?os w] by (simp add: fin img)
  have "trace w' = trace w @ concat (map (\<lambda>x. read_events t (src + x)) ?os)"
    using reads_done_trace [of src tgt ?os t w] by (simp add: fin)
  then have tr: "trace w' = trace w @ concat (map (\<lambda>k. read_events t (src + of_nat k * ?al)) [0..<m])"
    by (simp add: word_offsets_def comp_def)
  have bound: "m * unat ?al < 2 ^ 64" using sz unat_bound64 [of sz] by simp
  have pr: "\<forall>k<m. \<forall>i<length (chunk (region w) t (src + of_nat k * ?al)).
           priv w' (tgt + of_nat k * ?al + of_nat i) = chunk (region w) t (src + of_nat k * ?al) ! i"
  proof (intro allI impI)
    fix k i assume k: "k < m" and i: "i < length (chunk (region w) t (src + of_nat k * ?al))"
    have i': "i < unat ?al" using i length_chunk [of "region w" t "src + of_nat k * ?al"] by simp
    have mem: "of_nat k * ?al \<in> set ?os" using k by (auto simp: word_offsets_set)
    have dis: "\<forall>y\<in>set ?os. y \<noteq> of_nat k * ?al \<longrightarrow>
        (\<forall>j<unat ?al. tgt + y + of_nat j \<noteq> tgt + of_nat k * ?al + of_nat i)"
    proof (intro ballI allI impI)
      fix y j assume y: "y \<in> set ?os" and ne: "y \<noteq> of_nat k * ?al" and j: "j < unat ?al"
      from y obtain k' where k': "k' < m" "y = of_nat k' * ?al" by (auto simp: word_offsets_set)
      with ne have "k \<noteq> k'" by auto
      then show "tgt + y + of_nat j \<noteq> tgt + of_nat k * ?al + of_nat i"
        unfolding k'(2) using offsets_disjoint [OF bound k k'(1) _ i' j] by blast
    qed
    show "priv w' (tgt + of_nat k * ?al + of_nat i) = chunk (region w) t (src + of_nat k * ?al) ! i"
      using reads_done_priv [OF mem i dis] by (simp add: fin)
  qed
  from res inv rs1 rs2 tr pr show ?thesis by blast
qed

lemma tm_read_abort:
  assumes al: "0 < unat (align (region w))" and sz: "unat sz = m * unat (align (region w))"
    and k: "k < m"
    and cl: "\<forall>j<k. clean (region w) t (src + of_nat j * align (region w))"
    and ok: "access_ok (region w) t (src + of_nat k * align (region w))"
    and bad: "staged t (src + of_nat k * align (region w)) = None"
             "stale (region w) t (src + of_nat k * align (region w))"
  shows "\<exists>w'. tm_read w t src sz tgt = Inr (False, None, w')
     \<and> region w' = region w
     \<and> trace w' = trace w @ concat (map (\<lambda>j. read_events t (src + of_nat j * align (region w))) [0..<k])
                   @ [EvSample (src + of_nat k * align (region w))]"
proof -
  let ?al = "align (region w)"
  let ?pre = "word_offsets ?al 0 k"
  obtain t1 w1 where fin: "reads_done src tgt ?pre (t, w) = (t1, w1)"
    by (cases "reads_done src tgt ?pre (t, w)")
  have pre: "\<forall>x\<in>set ?pre. clean (region w) t (src + x)"
    using cl by (auto simp: word_offsets_set)
  have run: "run_offsets (tm_read_body (ro t) src tgt) (word_offsets ?al 0 m) (t, w)
        = Inr (Return (False, None, emit (EvSample (src + of_nat k * ?al)) w1))"
    unfolding word_offsets_split [OF k]
    using run_reads_abort [OF pre ok bad, of tgt] by (simp add: fin)
  have res: "tm_read w t src sz tgt = Inr (False, None, emit (EvSample (src + of_nat k * ?al)) w1)"
    using for_offsets_run [OF al sz, of "tm_read_body (ro t) src tgt" "(t, w)"] run
    by (simp add: tm_read_def tm_read_body_def)
  have r1: "region w1 = region w"
    using reads_done_simps(5) [of src tgt ?pre "(t, w)"] by (simp add: fin)
  have "trace w1 = trace w @ concat (map (\<lambda>x. read_events t (src + x)) ?pre)"
    using reads_done_trace [of src tgt ?pre t w] by (simp add: fin)
  then have tr: "trace w1 = trace w @ concat (map (\<lambda>j. read_events t (src + of_nat j * ?al)) [0..<k])"
    by (simp add: word_offsets_def comp_def)
  show ?thesis using res r1 tr by simp
qed

lemma chunk_shared:
  assumes "access_ok r t a" "staged t a = None" "\<not> stale r t a" "Region_word r a = Inr x"
  shows "length (chunk r t a) = unat (align r)" "i < unat (align r) \<Longrightarrow> chunk r t a ! i = data x ! i"
  using assms by (simp_all add: chunk_def access_ok_def)

lemma chunk_staged:
  assumes "access_ok r t a" "staged t a = Some buf"
  shows "length (chunk r t a) = unat (align r)" "i < unat (align r) \<Longrightarrow> chunk r t a ! i = buf ! i"
  using assms by (auto simp: chunk_def access_ok_def split: sum.splits)

subsection \<open>The small concrete states\<close>

lemma ex_Region_word_0:
  "Region_word (region (ex_world (w0 # ws) g)) 0x100000000 = Inr w0"
  by (simp add: Region_word_def word_index_def kADDR_MASK_def drop_bit_eq_div ex_world_def ex_region_def)

lemma ex_Region_word_1:
  "Region_word (region (ex_world (w0 # w1 # ws) g)) 0x100000008 = Inr w1"
  by (simp add: Region_word_def word_index_def kADDR_MASK_def drop_bit_eq_div ex_world_def ex_region_def)

lemma ex_align [simp]: "align (region (ex_world ws g)) = 8"
  by (simp add: ex_world_def ex_region_def)

lemma ex_trace [simp]: "trace (ex_world ws g) = []"
  by (simp add: ex_world_def)

lemma lessThan_2: "{..<2::nat} = {0, 1}"
  by auto

subsection \<open>Updating a word of the region\<close>

lemma word_index_update:
  "Region_word_update r a f = Inr r' \<Longrightarrow> word_index r' b = word_index r b"
  using Region_word_update_facts(1) [of r a f r'] by (simp add: word_index_def)

lemma Region_word_after_update:
  assumes "Region_word_update r a f = Inr r'"
  shows "Region_word r' b =
     (if word_index r b = word_index r a
      then (case Region_word r b of Inl e \<Rightarrow> Inl e | Inr x \<Rightarrow> Inr (f x))
      else Region_word r b)"
proof (cases "word_index r a")
  case (Inl e)
  then show ?thesis using assms by (simp add: Region_word_update_def)
next
  case (Inr si)
  obtain s i where si: "si = (s, i)" by (cases si)
  from assms Inr si have s: "s < length (mem r)" and i: "i < length (words (mem r ! s))"
    and r': "r' = r\<lparr>mem := (mem r)[s := (mem r ! s)\<lparr>words :=
                      (words (mem r ! s))[i := f (words (mem r ! s) ! i)]\<rparr>]\<rparr>"
    by (auto simp: Region_word_update_def split: if_splits)
  have m': "mem r' = (mem r)[s := (mem r ! s)\<lparr>words :=
                      (words (mem r ! s))[i := f (words (mem r ! s) ! i)]\<rparr>]"
    by (simp add: r')
  have wi: "word_index r' b = word_index r b" by (rule word_index_update [OF assms])
  show ?thesis
  proof (cases "word_index r b")
    case (Inl e)
    then show ?thesis using Inr by (simp add: Region_word_def wi)
  next
    case b: (Inr tj)
    obtain s' j where tj: "tj = (s', j)" by (cases tj)
    show ?thesis
      using Inr si b tj s i
      by (auto simp: Region_word_def wi m' nth_list_update)
  qed
qed

lemma Region_word_update_ok:
  "Region_word r a = Inr x \<Longrightarrow> \<exists>r'. Region_word_update r a f = Inr r'"
  by (auto simp: Region_word_def Region_word_update_def split: sum.splits prod.splits if_splits)

lemma Region_word_update_self:
  assumes "Region_word_update r a f = Inr r'" "Region_word r a = Inr x"
  shows "Region_word r' a = Inr (f x)"
  using Region_word_after_update [OF assms(1), of a] assms(2) by simp

subsection \<open>The bulk operations of the region\<close>

lemma LockWriteSet_loop_ok:
  "\<forall>e\<in>set ws. \<exists>x. Region_word (region w) (fst e) = Inr x \<and> \<not> locked (lock x) \<Longrightarrow>
   LockWriteSet_loop t ws lk w =
     Inr (True, w\<lparr>trace := trace w @ concat (map (\<lambda>e. try_events (fst e)) ws)\<rparr>)"
proof (induction ws arbitrary: lk w)
  case Nil
  show ?case by simp
next
  case (Cons e es)
  from Cons.prems obtain x where x: "Region_word (region w) (fst e) = Inr x" "\<not> locked (lock x)"
    by auto
  let ?w2 = "emit (EvTryLockCopy (fst e)) (emit (EvCopyWord (fst e)) w)"
  have "\<forall>e\<in>set es. \<exists>x. Region_word (region ?w2) (fst e) = Inr x \<and> \<not> locked (lock x)"
    using Cons.prems by simp
  from Cons.IH [OF this] show ?case
    using x by (simp add: Let_def TryLock_def try_events_def emit_def)
qed

lemma LockWriteSet_loop_first_locked:
  assumes "Region_word (region w) a = Inr x" "locked (lock x)"
  shows "LockWriteSet_loop t ((a, b) # post) [] w =
     Inr (False, w\<lparr>trace := trace w @ try_events a\<rparr>)"
  using assms by (simp add: Let_def TryLock_def try_events_def emit_def)

lemma LockWriteSet_loop_later_locked:
  assumes "\<forall>e\<in>set pre. \<exists>x. Region_word (region w) (fst e) = Inr x \<and> \<not> locked (lock x)"
    and "Region_word (region w) a = Inr x" "locked (lock x)" "lk \<noteq> [] \<or> pre \<noteq> []"
  shows "LockWriteSet_loop t (pre @ (a, b) # post) lk w = Inl DanglingReference"
  using assms
proof (induction pre arbitrary: lk w)
  case Nil
  then show ?case by (simp add: Let_def TryLock_def)
next
  case (Cons e es)
  from Cons.prems obtain y where y: "Region_word (region w) (fst e) = Inr y" "\<not> locked (lock y)"
    by auto
  let ?w2 = "emit (EvTryLockCopy (fst e)) (emit (EvCopyWord (fst e)) w)"
  let ?lk = "lk @ [(fst e, y\<lparr>lock := snd (TryLock (rv t) (lock y))\<rparr>)]"
  have "\<forall>e\<in>set es. \<exists>x. Region_word (region ?w2) (fst e) = Inr x \<and> \<not> locked (lock x)"
    and "Region_word (region ?w2) a = Inr x" and "?lk \<noteq> [] \<or> es \<noteq> []"
    using Cons.prems by simp_all
  from Cons.IH [OF this(1,2) \<open>locked (lock x)\<close> this(3)] show ?case
    using y by (simp add: Let_def TryLock_def)
qed

lemma LockWriteSet_loop_False:
  "LockWriteSet_loop t ws lk w = Inr (False, w') \<Longrightarrow>
   \<exists>e\<in>set ws. \<exists>x. Region_word (region w) (fst e) = Inr x \<and> locked (lock x)"
proof (induction ws arbitrary: lk w)
  case Nil
  then show ?case by simp
next
  case (Cons e es)
  from Cons.prems obtain x where x: "Region_word (region w) (fst e) = Inr x"
    by (auto split: sum.splits)
  show ?case
  proof (cases "locked (lock x)")
    case True
    with x show ?thesis by auto
  next
    case False
    let ?w2 = "emit (EvTryLockCopy (fst e)) (emit (EvCopyWord (fst e)) w)"
    from Cons.prems x False
    have "LockWriteSet_loop t es (lk @ [(fst e, x\<lparr>lock := snd (TryLock (rv t) (lock x))\<rparr>)]) ?w2 = Inr (False, w')"
      by (simp add: Let_def TryLock_def)
    from Cons.IH [OF this] show ?thesis by simp
  qed
qed

lemma LockWriteSet_loop_True:
  "LockWriteSet_loop t ws lk w = Inr (True, w') \<Longrightarrow>
   \<forall>e\<in>set ws. \<exists>x. Region_word (region w) (fst e) = Inr x \<and> \<not> locked (lock x)"
proof (induction ws arbitrary: lk w)
  case Nil
  show ?case by simp
next
  case (Cons e es)
  from Cons.prems obtain x where x: "Region_word (region w) (fst e) = Inr x"
    by (auto split: sum.splits)
  from Cons.prems x have nl: "\<not> locked (lock x)"
    by (auto simp: Let_def TryLock_def split: if_splits)
  let ?w2 = "emit (EvTryLockCopy (fst e)) (emit (EvCopyWord (fst e)) w)"
  from Cons.prems x nl have "LockWriteSet_loop t es (lk @ [(fst e, x\<lparr>lock := snd (TryLock (rv t) (lock x))\<rparr>)]) ?w2 = Inr (True, w')"
    by (simp add: Let_def TryLock_def)
  from Cons.IH [OF this] show ?case using x nl by simp
qed

lemma ValidateReadSet_loop_result:
  "ValidateReadSet_loop t rs w = Inr res \<Longrightarrow>
   fst res = (\<forall>a\<in>set rs. \<not> stale (region w) t a)
   \<and> region (snd res) = region w \<and> priv (snd res) = priv w
   \<and> (\<exists>sampled. trace (snd res) = trace w @ map EvSample sampled \<and> set sampled \<subseteq> set rs
         \<and> (fst res \<longrightarrow> sampled = rs))"
proof (induction rs arbitrary: w)
  case Nil
  then show ?case by auto
next
  case (Cons a as)
  from Cons.prems obtain x where x: "Region_word (region w) a = Inr x"
    by (auto split: sum.splits)
  show ?case
  proof (cases "unat (rv t) < version (lock x) \<or> locked (lock x)")
    case True
    then have "res = (False, emit (EvSample a) w)"
      using Cons.prems x by (simp add: Let_def Sample_def)
    moreover have "stale (region w) t a" using True x by (auto simp: stale_def)
    ultimately show ?thesis by (auto intro!: exI [of _ "[a]"])
  next
    case False
    then have rec: "ValidateReadSet_loop t as (emit (EvSample a) w) = Inr res"
      using Cons.prems x by (simp add: Let_def Sample_def)
    have ns: "\<not> stale (region w) t a" using False x by (auto simp: stale_def)
    from Cons.IH [OF rec] obtain sampled where
      f: "fst res = (\<forall>a\<in>set as. \<not> stale (region w) t a)"
      and r: "region (snd res) = region w" "priv (snd res) = priv w"
      and s: "trace (snd res) = trace w @ EvSample a # map EvSample sampled" "set sampled \<subseteq> set as"
        "fst res \<longrightarrow> sampled = as"
      by auto
    show ?thesis
      using f r s ns by (auto intro!: exI [of _ "a # sampled"])
  qed
qed

lemma ValidateReadSet_loop_returns:
  "\<forall>a\<in>set rs. \<exists>x. Region_word (region w) a = Inr x \<Longrightarrow> \<exists>res. ValidateReadSet_loop t rs w = Inr res"
proof (induction rs arbitrary: w)
  case Nil
  show ?case by auto
next
  case (Cons a as)
  from Cons.prems obtain x where x: "Region_word (region w) a = Inr x" by auto
  have "\<exists>res. ValidateReadSet_loop t as (emit (EvSample a) w) = Inr res"
    using Cons.prems by (intro Cons.IH) simp
  then show ?case using x
    by (cases "unat (rv t) < version (lock x) \<or> locked (lock x)") (auto simp: Let_def Sample_def)
qed

lemma UnlockWriteSet_loop_result:
  assumes "\<forall>e\<in>set ws. \<exists>x. Region_word (region w) (fst e) = Inr x"
  shows "\<exists>w'. UnlockWriteSet_loop ws w = Inr w' \<and> priv w' = priv w
     \<and> gvc (region w') = gvc (region w) \<and> align (region w') = align (region w)
     \<and> trace w' = trace w @ map (\<lambda>e. EvUnlock (fst e)) ws
     \<and> (\<forall>b x. Region_word (region w) b = Inr x \<longrightarrow>
           (\<exists>x'. Region_word (region w') b = Inr x' \<and> data x' = data x
               \<and> version (lock x') = version (lock x)
               \<and> (locked (lock x') \<longrightarrow> locked (lock x) \<and> b \<notin> fst ` set ws)))"
  using assms
proof (induction ws arbitrary: w)
  case Nil
  show ?case by simp
next
  case (Cons e es)
  let ?f = "\<lambda>x. x\<lparr>lock := Unlock (lock x)\<rparr>"
  from Cons.prems obtain y where y: "Region_word (region w) (fst e) = Inr y" by auto
  from Region_word_update_ok [OF y, of ?f] obtain r1 where
    r1: "Region_word_update (region w) (fst e) ?f = Inr r1" by blast
  let ?w1 = "emit (EvUnlock (fst e)) (w\<lparr>region := r1\<rparr>)"
  note au = Region_word_after_update [OF r1]
  have step: "\<exists>x'. Region_word r1 b = Inr x' \<and> data x' = data x
               \<and> version (lock x') = version (lock x)
               \<and> (locked (lock x') \<longrightarrow> locked (lock x) \<and> b \<noteq> fst e)"
    if "Region_word (region w) b = Inr x" for b x
    using that au [of b] by (auto simp: Unlock_def)
  have "\<forall>e\<in>set es. \<exists>x. Region_word (region ?w1) (fst e) = Inr x"
    using Cons.prems step by fastforce
  from Cons.IH [OF this] obtain w' where
    run: "UnlockWriteSet_loop es ?w1 = Inr w'"
    and fr: "priv w' = priv ?w1" "gvc (region w') = gvc (region ?w1)" "align (region w') = align (region ?w1)"
      "trace w' = trace ?w1 @ map (\<lambda>e. EvUnlock (fst e)) es"
    and rel: "\<forall>b x. Region_word (region ?w1) b = Inr x \<longrightarrow>
           (\<exists>x'. Region_word (region w') b = Inr x' \<and> data x' = data x
               \<and> version (lock x') = version (lock x)
               \<and> (locked (lock x') \<longrightarrow> locked (lock x) \<and> b \<notin> fst ` set es))"
    by blast
  have res: "UnlockWriteSet_loop (e # es) w = Inr w'" using r1 run by simp
  have f2: "priv w' = priv w" "gvc (region w') = gvc (region w)" "align (region w') = align (region w)"
    "trace w' = trace w @ map (\<lambda>e. EvUnlock (fst e)) (e # es)"
    using fr Region_word_update_facts(1,2) [OF r1] by simp_all
  have "\<forall>b x. Region_word (region w) b = Inr x \<longrightarrow>
           (\<exists>x'. Region_word (region w') b = Inr x' \<and> data x' = data x
               \<and> version (lock x') = version (lock x)
               \<and> (locked (lock x') \<longrightarrow> locked (lock x) \<and> b \<notin> fst ` set (e # es)))"
  proof (intro allI impI)
    fix b x assume "Region_word (region w) b = Inr x"
    from step [OF this] obtain x1 where x1: "Region_word r1 b = Inr x1" "data x1 = data x"
      "version (lock x1) = version (lock x)" "locked (lock x1) \<longrightarrow> locked (lock x) \<and> b \<noteq> fst e"
      by blast
    from rel x1(1) obtain x' where "Region_word (region w') b = Inr x'" "data x' = data x1"
      "version (lock x') = version (lock x1)" "locked (lock x') \<longrightarrow> locked (lock x1) \<and> b \<notin> fst ` set es"
      by fastforce
    with x1 show "\<exists>x'. Region_word (region w') b = Inr x' \<and> data x' = data x
               \<and> version (lock x') = version (lock x)
               \<and> (locked (lock x') \<longrightarrow> locked (lock x) \<and> b \<notin> fst ` set (e # es))"
      by auto
  qed
  with res f2 show ?case by blast
qed

lemma Commit_loop_stable:
  "Commit_loop t ws w = Inr w' \<Longrightarrow> Region_word (region w) b = Inr x \<Longrightarrow>
   lock x = UnlockTo (wv t) l \<Longrightarrow>
   \<exists>x'. Region_word (region w') b = Inr x' \<and> lock x' = UnlockTo (wv t) l"
proof (induction ws arbitrary: w x)
  case Nil
  then show ?case by simp
next
  case (Cons e es)
  from Cons.prems(1) obtain y d r1 where
    y: "Region_word (region w) (fst e) = Inr y"
    and r1: "Region_word_update (region w) (fst e) (\<lambda>x. x\<lparr>data := d, lock := UnlockTo (wv t) (lock x)\<rparr>) = Inr r1"
    and run: "Commit_loop t es (emit (EvUnlockTo (fst e) (wv t)) (emit (EvWriteData (fst e)) (w\<lparr>region := r1\<rparr>))) = Inr w'"
    by (auto split: sum.splits)
  from Region_word_after_update [OF r1, of b] Cons.prems(2,3)
  obtain x1 where "Region_word r1 b = Inr x1" "lock x1 = UnlockTo (wv t) l"
    by (auto simp: UnlockTo_def split: if_splits)
  then show ?case using Cons.IH [OF run, of x1] by simp
qed

lemma Commit_loop_result:
  "Commit_loop t ws w = Inr w' \<Longrightarrow>
   priv w' = priv w \<and> gvc (region w') = gvc (region w) \<and> align (region w') = align (region w)
   \<and> trace w' = trace w @ concat (map (\<lambda>e. [EvWriteData (fst e), EvUnlockTo (fst e) (wv t)]) ws)
   \<and> (\<forall>e\<in>set ws. \<exists>x. Region_word (region w') (fst e) = Inr x
          \<and> lock x = \<lparr>locked = False, version = unat (wv t)\<rparr>)"
proof (induction ws arbitrary: w)
  case Nil
  then show ?case by simp
next
  case (Cons e es)
  from Cons.prems(1) obtain y d r1 where
    y: "Region_word (region w) (fst e) = Inr y"
    and r1: "Region_word_update (region w) (fst e) (\<lambda>x. x\<lparr>data := d, lock := UnlockTo (wv t) (lock x)\<rparr>) = Inr r1"
    and run: "Commit_loop t es (emit (EvUnlockTo (fst e) (wv t)) (emit (EvWriteData (fst e)) (w\<lparr>region := r1\<rparr>))) = Inr w'"
    by (auto split: sum.splits)
  let ?w1 = "emit (EvUnlockTo (fst e) (wv t)) (emit (EvWriteData (fst e)) (w\<lparr>region := r1\<rparr>))"
  have x1: "Region_word (region ?w1) (fst e) = Inr (y\<lparr>data := d, lock := UnlockTo (wv t) (lock y)\<rparr>)"
    using Region_word_update_self [OF r1 y] by simp
  from Commit_loop_stable [OF run x1, of "lock y"]
  have hd: "\<exists>x. Region_word (region w') (fst e) = Inr x \<and> lock x = \<lparr>locked = False, version = unat (wv t)\<rparr>"
    by (simp add: UnlockTo_def)
  from Cons.IH [OF run] hd Region_word_update_facts(1,2) [OF r1]
  show ?case by simp
qed

lemma Region_word_gvc [simp]: "Region_word (r\<lparr>gvc := g\<rparr>) a = Region_word r a"
  by (simp add: Region_word_def word_index_def)

lemma stale_gvc [simp]: "stale (r\<lparr>gvc := g\<rparr>) t a = stale r t a"
  by (simp add: stale_def)

lemma stale_wv [simp]: "stale r (t\<lparr>wv := v\<rparr>) a = stale r t a"
  by (simp add: stale_def split: sum.splits)

lemma LockWriteSet_True:
  assumes "LockWriteSet w t = Inr (True, w1)"
  shows "\<forall>e\<in>set (write_set t). \<exists>x. Region_word (region w) (fst e) = Inr x \<and> \<not> locked (lock x)"
    and "w1 = w\<lparr>trace := trace w @ concat (map (\<lambda>e. try_events (fst e)) (write_set t))\<rparr>"
proof -
  show 1: "\<forall>e\<in>set (write_set t). \<exists>x. Region_word (region w) (fst e) = Inr x \<and> \<not> locked (lock x)"
    using assms LockWriteSet_loop_True [of t "write_set t" "[]" w w1] by (simp add: LockWriteSet_def)
  show "w1 = w\<lparr>trace := trace w @ concat (map (\<lambda>e. try_events (fst e)) (write_set t))\<rparr>"
    using assms LockWriteSet_loop_ok [OF 1, of t "[]"] by (simp add: LockWriteSet_def)
qed

lemma no_sample_in_tries: "EvSample a \<notin> set (try_events b)"
  by (simp add: try_events_def)

subsection \<open>Evaluating tm_end on the small concrete states\<close>

lemmas ex_eval = tm_end_def LockWriteSet_def Commit_def ValidateReadSet_def UnlockWriteSet_def
  assign_wv_def Region_word_def Region_word_update_def word_index_def kADDR_MASK_def
  drop_bit_eq_div memcpy_def TryLock_def Unlock_def UnlockTo_def Sample_def emit_def Let_def
  ex_world_def ex_region_def ex_word_def ex_tx_def

subsection \<open>More on tm_write\<close>

lemma tm_write_ascending:
  assumes "tm_write w t src sz tgt = Inr res" "ascending (write_set t)" "fst (snd res) = Some t'"
  shows "ascending (write_set t')"
proof -
  from assms(1) obtain fl where run: "for_offsets sz (align (region w)) (tm_write_body src tgt) 0 (t, w) = Inr fl"
    by (auto simp: tm_write_def split: sum.splits)
  have "case fl of Continue s' \<Rightarrow> ascending (write_set (fst s')) | Return r \<Rightarrow> False"
    by (rule for_offsets_invariant [where I = "\<lambda>s. ascending (write_set (fst s))", OF _ _ _ run])
       (auto simp: write_step assms(2) ascending_map_assign)
  then show ?thesis using assms(1,3) run by (auto simp: tm_write_def split: flow.splits)
qed

lemma tm_write_true:
  assumes "tm_write w t src sz tgt = Inr res"
  shows "fst res"
proof -
  from assms obtain fl where run: "for_offsets sz (align (region w)) (tm_write_body src tgt) 0 (t, w) = Inr fl"
    by (auto simp: tm_write_def split: sum.splits)
  have "case fl of Continue s' \<Rightarrow> True | Return r \<Rightarrow> False"
    by (rule for_offsets_invariant [where I = "\<lambda>s. True", OF _ _ _ run])
       (auto simp: write_step)
  then show ?thesis using assms run by (auto simp: tm_write_def split: flow.splits)
qed

subsection \<open>The mask of the address\<close>

lemma mask16: "(0xFFFF :: 64 word) = mask 16"
  by (simp add: mask_eq_exp_minus_1)

lemma word_index_agrees_below_64K:
  assumes "align r \<noteq> 0" "a AND 0xFFFFFFFF < 0x10000"
  shows "word_index r a = Inr (decompose_spec (align r) a)"
proof -
  have "a AND 0xFFFF = (a AND 0xFFFFFFFF) AND 0xFFFF"
    by (simp add: and.assoc)
  also have "\<dots> = a AND 0xFFFFFFFF"
    unfolding mask16 using assms(2) by (intro less_mask_eq) simp
  finally show ?thesis using assms(1)
    by (simp add: word_index_def decompose_spec_def kADDR_MASK_def)
qed

subsection \<open>Allocation\<close>








subsection \<open>Release after a later failure\<close>

text \<open>
  When \<open>TryLock\<close> fails on a word after others have been acquired, \<open>LockWriteSet\<close>
  unlocks through the references it kept, which refer to copies that no longer exist.
\<close>

lemma LockWriteSet_release_dangles:
  "LockWriteSet (ex_world [ex_word False 0 7, ex_word False 0 9, ex_word True 0 1] 0)
        (ex_tx False 0 []
           [(0x100000000, replicate 8 1), (0x100000008, replicate 8 2), (0x100000010, replicate 8 3)])
     = Inl DanglingReference"
  by (simp add: ex_eval)

section \<open>The claims\<close>


text \<open>
  C1. The specification decomposes an address as \<open>(addr >> 32, (addr & 0xFFFFFFFF) / align)\<close>.
  \<open>Region::word\<close> masks with \<open>kADDR_MASK = 0xFFFF\<close> and so keeps 16 bits of the offset
  (the two agree for offsets below 65536, lemma \<open>word_index_agrees_below_64K\<close>). For the
  region created with a first segment of 131072 bytes and alignment 8, the address 65536
  bytes into the first segment is looked up at word 0 of segment 1, where the
  specification's decomposition gives word 8192; with alignment 128 it is word 0 again,
  where the specification's decomposition gives word 512.
\<close>

theorem word_index_keeps_16_offset_bits:
  "word_index (Region_init 131072 8) 0x100010000 = Inr (1, 0)
   \<and> decompose_spec 8 0x100010000 = (1, 8192)
   \<and> word_index (Region_init 131072 128) 0x100010000 = Inr (1, 0)
   \<and> decompose_spec 128 0x100010000 = (1, 512)"
  by (simp add: word_index_def decompose_spec_def align_Region_init kADDR_MASK_def drop_bit_eq_div)

text \<open>
  C2 as stated fails. Two words are written, the one at the higher address first:
  \<open>LockWriteSet\<close> tries the lower address first, not the one inserted first. (It
  returns true and the region is left as it was: \<open>TryLock\<close> acts on copies of the
  words.)
\<close>

theorem LockWriteSet_not_insertion_order:
  "tm_write (ex_world [ex_word False 0 7, ex_word False 0 9] 0) (ex_tx False 0 [] [])
      0x1000 8 0x100000008
     = Inr (True, Some (ex_tx False 0 [] [(0x100000008, [0, 1, 2, 3, 4, 5, 6, 7])]),
            ex_world [ex_word False 0 7, ex_word False 0 9] 0)
   \<and> tm_write (ex_world [ex_word False 0 7, ex_word False 0 9] 0)
        (ex_tx False 0 [] [(0x100000008, [0, 1, 2, 3, 4, 5, 6, 7])]) 0x1000 8 0x100000000
     = Inr (True, Some (ex_tx False 0 []
                [(0x100000000, [0, 1, 2, 3, 4, 5, 6, 7]), (0x100000008, [0, 1, 2, 3, 4, 5, 6, 7])]),
            ex_world [ex_word False 0 7, ex_word False 0 9] 0)
   \<and> LockWriteSet (ex_world [ex_word False 0 7, ex_word False 0 9] 0)
        (ex_tx False 0 []
           [(0x100000000, [0, 1, 2, 3, 4, 5, 6, 7]), (0x100000008, [0, 1, 2, 3, 4, 5, 6, 7])])
     = Inr (True, (ex_world [ex_word False 0 7, ex_word False 0 9] 0)
              \<lparr>trace := [EvCopyWord 0x100000000, EvTryLockCopy 0x100000000,
                         EvCopyWord 0x100000008, EvTryLockCopy 0x100000008]\<rparr>)"
  by (simp add: tm_write_def for_offsets.simps [of _ _ _ 0] for_offsets.simps [of _ _ _ 8]
      write_step load_bytes_8 ex_eval)

text \<open>
  C2, amended. \<open>LockWriteSet\<close> goes through the write set in ascending order of the
  addresses (the order of iteration of the \<open>std::map\<close>, kept by \<open>tm_write\<close> whatever the
  order of the writes), calling \<open>TryLock\<close> for each word in turn. When no word of the
  write set is locked it returns true, having tried every word in that order. When the
  word at the lowest address is locked it returns false after that one \<open>TryLock\<close>.
  Whenever it returns, it returns true exactly when no word of the write set is locked.
  Nothing is said about the release of locks acquired before a later failure, nor
  about the words on which the acquired locks land.
\<close>

theorem LockWriteSet_ascending_order:
  assumes "\<forall>e\<in>set (write_set t). \<exists>x. Region_word (region w) (fst e) = Inr x"
  shows "((\<forall>e\<in>set (write_set t). \<not> word_locked (region w) (fst e)) \<longrightarrow>
            (\<exists>w'. LockWriteSet w t = Inr (True, w')
               \<and> trace w' = trace w @ concat (map (\<lambda>e. try_events (fst e)) (write_set t))))
       \<and> (\<forall>a b post.
             write_set t = (a, b) # post \<and> word_locked (region w) a \<longrightarrow>
            (\<exists>w'. LockWriteSet w t = Inr (False, w') \<and> trace w' = trace w @ try_events a))
       \<and> (\<forall>res. LockWriteSet w t = Inr res \<longrightarrow>
             fst res = (\<forall>e\<in>set (write_set t). \<not> word_locked (region w) (fst e)))
       \<and> ascending (write_set (fst (tm_begin w0 is_ro)))
       \<and> (\<forall>res t'. ascending (write_set t0) \<and> tm_write w0 t0 src sz tgt = Inr res
                    \<and> fst (snd res) = Some t' \<longrightarrow> ascending (write_set t'))"
proof (intro conjI allI impI)
  assume free: "\<forall>e\<in>set (write_set t). \<not> word_locked (region w) (fst e)"
  have "\<forall>e\<in>set (write_set t). \<exists>x. Region_word (region w) (fst e) = Inr x \<and> \<not> locked (lock x)"
    using assms free by (fastforce simp: word_locked_def)
  from LockWriteSet_loop_ok [OF this, of t "[]"]
  show "\<exists>w'. LockWriteSet w t = Inr (True, w')
               \<and> trace w' = trace w @ concat (map (\<lambda>e. try_events (fst e)) (write_set t))"
    by (simp add: LockWriteSet_def)
next
  fix a b post
  assume h: "write_set t = (a, b) # post \<and> word_locked (region w) a"
  then obtain x where x: "Region_word (region w) a = Inr x" "locked (lock x)"
    by (auto simp: word_locked_def split: sum.splits)
  from LockWriteSet_loop_first_locked [OF x, of t b post] h
  show "\<exists>w'. LockWriteSet w t = Inr (False, w') \<and> trace w' = trace w @ try_events a"
    by (simp add: LockWriteSet_def)
next
  fix res
  assume r: "LockWriteSet w t = Inr res"
  obtain ok w' where res: "res = (ok, w')" by (cases res)
  show "fst res = (\<forall>e\<in>set (write_set t). \<not> word_locked (region w) (fst e))"
  proof (cases ok)
    case True
    with r res have "LockWriteSet_loop t (write_set t) [] w = Inr (True, w')"
      by (simp add: LockWriteSet_def)
    from LockWriteSet_loop_True [OF this] show ?thesis
      using True res by (fastforce simp: word_locked_def)
  next
    case False
    with r res have "LockWriteSet_loop t (write_set t) [] w = Inr (False, w')"
      by (simp add: LockWriteSet_def)
    from LockWriteSet_loop_False [OF this] show ?thesis
      using False res by (fastforce simp: word_locked_def)
  qed
next
  show "ascending (write_set (fst (tm_begin w0 is_ro)))"
    by (simp add: tm_begin_def ascending_def)
next
  fix res t'
  assume "ascending (write_set t0) \<and> tm_write w0 t0 src sz tgt = Inr res \<and> fst (snd res) = Some t'"
  then show "ascending (write_set t')" using tm_write_ascending [of w0 t0 src sz tgt res t'] by blast
qed

theorem LockWriteSet_ascending_order_witness:
  "(\<exists>w'. LockWriteSet (ex_world [ex_word False 0 7, ex_word False 0 9, ex_word True 0 1] 0)
            (ex_tx False 0 [] [(0x100000000, replicate 8 1), (0x100000008, replicate 8 2)])
          = Inr (True, w')
        \<and> trace w' = [EvCopyWord 0x100000000, EvTryLockCopy 0x100000000,
                       EvCopyWord 0x100000008, EvTryLockCopy 0x100000008])
   \<and> (\<exists>w'. LockWriteSet (ex_world [ex_word True 0 7, ex_word False 0 9, ex_word False 0 1] 0)
            (ex_tx False 0 [] [(0x100000000, replicate 8 1), (0x100000008, replicate 8 2)])
          = Inr (False, w')
        \<and> trace w' = [EvCopyWord 0x100000000, EvTryLockCopy 0x100000000])"
proof -
  let ?w = "ex_world [ex_word False 0 7, ex_word False 0 9, ex_word True 0 1] 0"
  let ?v = "ex_world [ex_word True 0 7, ex_word False 0 9, ex_word False 0 1] 0"
  let ?t = "ex_tx False 0 [] [(0x100000000, replicate 8 1), (0x100000008, replicate 8 2)]"
  have r0: "Region_word (region ?w) 0x100000000 = Inr (ex_word False 0 7)"
    and r1: "Region_word (region ?w) 0x100000008 = Inr (ex_word False 0 9)"
    and v0: "Region_word (region ?v) 0x100000000 = Inr (ex_word True 0 7)"
    and v1: "Region_word (region ?v) 0x100000008 = Inr (ex_word False 0 9)"
    by (simp_all add: ex_Region_word_0 ex_Region_word_1)
  have l0: "\<not> word_locked (region ?w) 0x100000000" and l1: "\<not> word_locked (region ?w) 0x100000008"
    and k0: "word_locked (region ?v) 0x100000000"
    unfolding word_locked_def r0 r1 v0 by (simp_all add: ex_word_def)
  have hw: "\<forall>e\<in>set (write_set ?t). \<exists>x. Region_word (region ?w) (fst e) = Inr x"
    by (simp add: ex_tx_def r0 r1)
  have hv: "\<forall>e\<in>set (write_set ?t). \<exists>x. Region_word (region ?v) (fst e) = Inr x"
    by (simp add: ex_tx_def v0 v1)
  have ft: "\<forall>e\<in>set (write_set ?t). \<not> word_locked (region ?w) (fst e)"
    by (simp add: ex_tx_def l0 l1)
  from LockWriteSet_ascending_order [OF hw, THEN conjunct1] ft
  have a: "\<exists>w'. LockWriteSet ?w ?t = Inr (True, w')
        \<and> trace w' = [EvCopyWord 0x100000000, EvTryLockCopy 0x100000000,
                       EvCopyWord 0x100000008, EvTryLockCopy 0x100000008]"
    by (simp add: ex_tx_def try_events_def)
  have st: "write_set ?t = (0x100000000, replicate 8 1) # [(0x100000008, replicate 8 2)]"
    by (simp add: ex_tx_def)
  from LockWriteSet_ascending_order [OF hv, THEN conjunct2, THEN conjunct1, rule_format,
      of "0x100000000" "replicate 8 1" "[(0x100000008, replicate 8 2)]"] st k0
  have b: "\<exists>w'. LockWriteSet ?v ?t = Inr (False, w')
        \<and> trace w' = [EvCopyWord 0x100000000, EvTryLockCopy 0x100000000]"
    by (simp add: try_events_def)
  from a b show ?thesis by blast
qed

text \<open>
  C3. \<open>tm_end\<close> of a non-read-only transaction whose \<open>LockWriteSet\<close> returned true, when
  it returns: the global version clock has been incremented by one; if it commits, every
  word of the write set is released with the version \<open>gvc + 1\<close> (the old value of the
  clock plus one, in 32-bit arithmetic), which is the \<open>wv\<close> of the transaction. If
  \<open>rv + 1 = wv\<close>, it commits and no lock is sampled: validation is skipped. Otherwise
  validation runs: \<open>tm_end\<close> returns true exactly when no address of the read set is
  locked or newer than \<open>rv\<close>, and then the lock of every address of the read set has
  been sampled.
\<close>

theorem tm_end_write_version_and_validation:
  assumes "\<not> ro t" and "LockWriteSet w t = Inr (True, w1)" and "tm_end w t = Inr (ok, topt, w')"
  shows "gvc (region w') = gvc (region w) + 1
    \<and> (ok \<longrightarrow> (\<forall>e\<in>set (write_set t). \<exists>x. Region_word (region w') (fst e) = Inr x
                 \<and> lock x = \<lparr>locked = False, version = unat (gvc (region w) + 1)\<rparr>))
    \<and> (rv t + 1 = gvc (region w) + 1 \<longrightarrow>
          ok \<and> (\<forall>a. EvSample a \<notin> set (drop (length (trace w)) (trace w'))))
    \<and> (rv t + 1 \<noteq> gvc (region w) + 1 \<longrightarrow>
          ok = (\<forall>a\<in>set (read_set t). \<not> stale (region w) t a)
          \<and> (ok \<longrightarrow> (\<forall>a\<in>set (read_set t). EvSample a \<in> set (drop (length (trace w)) (trace w')))))"
proof -
  let ?tries = "concat (map (\<lambda>e. try_events (fst e)) (write_set t))"
  let ?t2 = "t\<lparr>wv := gvc (region w) + 1\<rparr>"
  let ?w2 = "emit EvGvcFetchAdd (w1\<lparr>region := (region w)\<lparr>gvc := gvc (region w) + 1\<rparr>\<rparr>)"
  note lk = LockWriteSet_True [OF assms(2)]
  have w1: "region w1 = region w" "trace w1 = trace w @ ?tries" "priv w1 = priv w"
    by (simp_all add: lk(2))
  have aw: "fst (assign_wv w1 t) = ?t2" "snd (assign_wv w1 t) = ?w2"
    by (simp_all add: assign_wv_def w1)
  have tw2: "trace ?w2 = trace w @ ?tries @ [EvGvcFetchAdd]" by (simp add: w1)
  show ?thesis
  proof (cases "rv t + 1 = gvc (region w) + 1")
    case True
    from assms(1,2,3) True obtain w3 where c: "Commit_loop ?t2 (write_set t) ?w2 = Inr w3"
      and r: "ok" "w' = w3"
      by (auto simp: tm_end_def aw Let_def Commit_def split: sum.splits)
    note cr = Commit_loop_result [OF c]
    have tr: "trace w' = trace w @ ?tries @ [EvGvcFetchAdd]
        @ concat (map (\<lambda>e. [EvWriteData (fst e), EvUnlockTo (fst e) (gvc (region w) + 1)]) (write_set t))"
      using cr tw2 r by simp
    have "\<forall>a. EvSample a \<notin> set (drop (length (trace w)) (trace w'))"
      by (simp add: tr no_sample_in_tries)
    then show ?thesis using True r cr by simp
  next
    case False
    from assms(1,2,3) False obtain vr where v: "ValidateReadSet_loop ?t2 (read_set t) ?w2 = Inr vr"
      by (auto simp: tm_end_def aw Let_def ValidateReadSet_def split: sum.splits)
    from ValidateReadSet_loop_result [OF v] obtain sampled where
      f: "fst vr = (\<forall>a\<in>set (read_set t). \<not> stale (region w) t a)"
      and rg: "region (snd vr) = region ?w2"
      and st: "trace (snd vr) = trace ?w2 @ map EvSample sampled" "fst vr \<longrightarrow> sampled = read_set t"
      by auto
    show ?thesis
    proof (cases "fst vr")
      case True
      from assms(1,2,3) False v True obtain w4 where c: "Commit_loop ?t2 (write_set t) (snd vr) = Inr w4"
        and r: "ok" "w' = w4"
        by (auto simp: tm_end_def aw Let_def ValidateReadSet_def Commit_def split: sum.splits)
      note cr = Commit_loop_result [OF c]
      have tr: "trace w' = trace w @ ?tries @ [EvGvcFetchAdd] @ map EvSample (read_set t)
        @ concat (map (\<lambda>e. [EvWriteData (fst e), EvUnlockTo (fst e) (gvc (region w) + 1)]) (write_set t))"
        using cr tw2 r st True by simp
      have "\<forall>a\<in>set (read_set t). EvSample a \<in> set (drop (length (trace w)) (trace w'))"
        by (simp add: tr)
      then show ?thesis using False r cr f True rg by simp
    next
      case nv: False
      from assms(1,2,3) False v nv obtain w4 where u: "UnlockWriteSet_loop (write_set t) (snd vr) = Inr w4"
        and r: "\<not> ok" "w' = w4"
        by (auto simp: tm_end_def aw Let_def ValidateReadSet_def UnlockWriteSet_def split: sum.splits)
      have "\<forall>e\<in>set (write_set t). \<exists>x. Region_word (region (snd vr)) (fst e) = Inr x"
        using lk(1) by (auto simp: rg)
      from UnlockWriteSet_loop_result [OF this] u have "gvc (region w4) = gvc (region (snd vr))"
        by auto
      then show ?thesis using False r f nv rg by simp
    qed
  qed
qed

theorem tm_end_write_version_and_validation_witness:
  "(\<exists>w'. tm_end (ex_world [ex_word False 0 7, ex_word False 5 9] 3)
            (ex_tx False 3 [0x100000008] [(0x100000000, replicate 8 5)]) = Inr (True, None, w')
         \<and> gvc (region w') = 4
         \<and> Region_word (region w') 0x100000000
             = Inr \<lparr>lock = \<lparr>locked = False, version = 4\<rparr>, data = replicate 8 5\<rparr>
         \<and> (\<forall>a. EvSample a \<notin> set (trace w')))
   \<and> (\<exists>w'. tm_end (ex_world [ex_word False 0 7, ex_word False 5 9] 3)
            (ex_tx False 2 [0x100000008] [(0x100000000, replicate 8 5)]) = Inr (False, None, w')
         \<and> gvc (region w') = 4)"
proof -
  let ?w = "ex_world [ex_word False 0 7, ex_word False 5 9] 3"
  let ?t = "ex_tx False 3 [0x100000008] [(0x100000000, replicate 8 5)]"
  let ?u = "ex_tx False 2 [0x100000008] [(0x100000000, replicate 8 5)]"
  have g: "gvc (region ?w) = 3" by (simp add: ex_world_def ex_region_def)
  have n1: "\<not> ro ?t" and n2: "\<not> ro ?u" by (simp_all add: ex_tx_def)
  have l1: "\<exists>w1. LockWriteSet ?w ?t = Inr (True, w1)" and l2: "\<exists>w1. LockWriteSet ?w ?u = Inr (True, w1)"
    by (simp_all add: ex_eval)
  have e1: "\<exists>w'. tm_end ?w ?t = Inr (True, None, w')
      \<and> Region_word (region w') 0x100000000
             = Inr \<lparr>lock = \<lparr>locked = False, version = 4\<rparr>, data = replicate 8 5\<rparr>"
    by (simp add: ex_eval)
  have e2: "\<exists>w'. tm_end ?w ?u = Inr (False, None, w')"
    by (simp add: ex_eval)
  from l1 obtain w1 where l1': "LockWriteSet ?w ?t = Inr (True, w1)" by blast
  from l2 obtain w2 where l2': "LockWriteSet ?w ?u = Inr (True, w2)" by blast
  from e1 obtain w' where e1': "tm_end ?w ?t = Inr (True, None, w')"
    and rw: "Region_word (region w') 0x100000000
             = Inr \<lparr>lock = \<lparr>locked = False, version = 4\<rparr>, data = replicate 8 5\<rparr>" by blast
  from e2 obtain w'' where e2': "tm_end ?w ?u = Inr (False, None, w'')" by blast
  have rv1: "rv ?t + 1 = gvc (region ?w) + 1" by (simp add: g ex_tx_def)
  from tm_end_write_version_and_validation [OF n1 l1' e1'] rv1
  have a: "gvc (region w') = 4" "\<forall>a. EvSample a \<notin> set (trace w')"
    by (simp_all add: g)
  from tm_end_write_version_and_validation [OF n2 l2' e2']
  have b: "gvc (region w'') = 4" by (simp add: g)
  from e1' rw a e2' b show ?thesis by blast
qed

text \<open>
  C4 as stated fails: a transaction that has staged a buffer for the first word of
  segment 1 and then reads that word gets the staged buffer, no operation on the shared
  word is issued, and yet the address, found in the write set, is inserted into the
  read set.
\<close>

theorem tm_read_records_staged_address:
  "tm_read (ex_world [ex_word False 0 7] 0) (ex_tx False 0 [] [(0x100000000, replicate 8 5)])
      0x100000000 8 0x2000
   = Inr (True,
          Some (ex_tx False 0 [0x100000000] [(0x100000000, replicate 8 5)]),
          (ex_world [ex_word False 0 7] 0)
            \<lparr>priv := store_bytes (\<lambda>a. ucast a) 0x2000 (replicate 8 5)\<rparr>)
   \<and> map_of (write_set (ex_tx False 0 [] [(0x100000000, replicate 8 5)])) 0x100000000
       = Some (replicate 8 5)
   \<and> read_set (ex_tx False 0 [] [(0x100000000, replicate 8 5)]) = []"
  by (simp add: tm_read_def for_offsets.simps [of _ _ _ 0] for_offsets.simps [of _ _ _ 8]
      tm_read_rw_body_def emplace_def memcpy_out_def
      Region_word_def word_index_def kADDR_MASK_def drop_bit_eq_div
      ex_world_def ex_region_def ex_word_def ex_tx_def Let_def)

text \<open>
  C4, amended. A read by a non-read-only transaction that does not abort inserts every
  address it reads into the read set, whether or not the address is found in the write
  set; every address found in the write set is served by copying the staged buffer to
  the target, and neither the lock nor the payload of the shared word is accessed for it.
\<close>

theorem tm_read_serves_staged_and_records_all:
  assumes "0 < unat (align (region w))" and "unat sz = m * unat (align (region w))"
    and "\<not> ro t"
    and "\<forall>k<m. access_ok (region w) t (src + of_nat k * align (region w))"
    and "\<forall>k<m. staged t (src + of_nat k * align (region w)) = None \<longrightarrow>
                \<not> stale (region w) t (src + of_nat k * align (region w))"
  shows "\<exists>t' w'. tm_read w t src sz tgt = Inr (True, Some t', w')
     \<and> set (read_set t') = set (read_set t) \<union> (\<lambda>k. src + of_nat k * align (region w)) ` {..<m}
     \<and> (\<forall>k<m. \<forall>buf. map_of (write_set t) (src + of_nat k * align (region w)) = Some buf \<longrightarrow>
            (\<forall>i<unat (align (region w)). priv w' (tgt + of_nat k * align (region w) + of_nat i) = buf ! i)
          \<and> EvSample (src + of_nat k * align (region w)) \<notin> set (drop (length (trace w)) (trace w'))
          \<and> EvReadData (src + of_nat k * align (region w)) \<notin> set (drop (length (trace w)) (trace w')))"
proof -
  let ?al = "align (region w)"
  have cl: "\<forall>k<m. clean (region w) t (src + of_nat k * ?al)"
    using assms(4,5) by (auto simp: clean_def)
  from tm_read_ok [OF assms(1,2) cl, of tgt] assms(3) obtain t' w' where
    res: "tm_read w t src sz tgt = Inr (True, Some t', w')"
    and rs: "set (read_set t') = set (read_set t) \<union> (\<lambda>k. src + of_nat k * ?al) ` {..<m}"
    and tr: "trace w' = trace w @ concat (map (\<lambda>k. read_events t (src + of_nat k * ?al)) [0..<m])"
    and pr: "\<forall>k<m. \<forall>i<length (chunk (region w) t (src + of_nat k * ?al)).
           priv w' (tgt + of_nat k * ?al + of_nat i) = chunk (region w) t (src + of_nat k * ?al) ! i"
    by blast
  have "\<forall>k<m. \<forall>buf. map_of (write_set t) (src + of_nat k * ?al) = Some buf \<longrightarrow>
            (\<forall>i<unat ?al. priv w' (tgt + of_nat k * ?al + of_nat i) = buf ! i)
          \<and> EvSample (src + of_nat k * ?al) \<notin> set (drop (length (trace w)) (trace w'))
          \<and> EvReadData (src + of_nat k * ?al) \<notin> set (drop (length (trace w)) (trace w'))"
  proof (intro allI impI)
    fix k buf assume k: "k < m" and buf: "map_of (write_set t) (src + of_nat k * ?al) = Some buf"
    have st: "staged t (src + of_nat k * ?al) = Some buf" using buf assms(3) by (simp add: staged_def)
    have ok: "access_ok (region w) t (src + of_nat k * ?al)" using assms(4) k by simp
    have copy: "\<forall>i<unat ?al. priv w' (tgt + of_nat k * ?al + of_nat i) = buf ! i"
      using pr k chunk_staged [OF ok st] by simp
    have none: "e \<notin> set (drop (length (trace w)) (trace w'))"
      if e: "e = EvSample (src + of_nat k * ?al) \<or> e = EvReadData (src + of_nat k * ?al)" for e
    proof
      assume "e \<in> set (drop (length (trace w)) (trace w'))"
      then obtain j where j: "j < m" "e \<in> set (read_events t (src + of_nat j * ?al))"
        by (auto simp: tr)
      then have "staged t (src + of_nat j * ?al) = None" "src + of_nat j * ?al = src + of_nat k * ?al"
        using e by (auto simp: read_events_def split: if_splits)
      with st show False by simp
    qed
    from copy none show "(\<forall>i<unat ?al. priv w' (tgt + of_nat k * ?al + of_nat i) = buf ! i)
          \<and> EvSample (src + of_nat k * ?al) \<notin> set (drop (length (trace w)) (trace w'))
          \<and> EvReadData (src + of_nat k * ?al) \<notin> set (drop (length (trace w)) (trace w'))"
      by blast
  qed
  with res rs show ?thesis by blast
qed

theorem tm_read_serves_staged_and_records_all_witness:
  "\<exists>t' w'. tm_read (ex_world [ex_word False 0 7, ex_word False 0 9] 0)
              (ex_tx False 0 [] [(0x100000000, replicate 8 5)]) 0x100000000 16 0x2000
            = Inr (True, Some t', w')
     \<and> set (read_set t') = {0x100000000, 0x100000008}
     \<and> priv w' 0x2000 = 5
     \<and> EvSample 0x100000000 \<notin> set (trace w')"
proof -
  let ?w = "ex_world [ex_word False 0 7, ex_word False 0 9] 0"
  let ?t = "ex_tx False 0 [] [(0x100000000, replicate 8 5)]"
  have st0: "staged ?t 0x100000000 = Some (replicate 8 5)" by (simp add: staged_def ex_tx_def)
  have st1: "staged ?t 0x100000008 = None" by (simp add: staged_def ex_tx_def)
  have s1: "\<not> stale (region ?w) ?t 0x100000008"
    by (simp add: stale_def ex_Region_word_1 ex_word_def ex_tx_def)
  have a0: "access_ok (region ?w) ?t 0x100000000"
    by (simp add: access_ok_def ex_Region_word_0 st0)
  have a1: "access_ok (region ?w) ?t 0x100000008"
    by (simp add: access_ok_def ex_Region_word_1 st1 ex_word_def)
  have h1: "0 < unat (align (region ?w))" by simp
  have h2: "unat (16 :: 64 word) = 2 * unat (align (region ?w))" by simp
  have h3: "\<not> ro ?t" by (simp add: ex_tx_def)
  have h4: "\<forall>k<2. access_ok (region ?w) ?t (0x100000000 + of_nat k * align (region ?w))"
    using a0 a1 by (auto simp: less_2_cases_iff)
  have h5: "\<forall>k<2. staged ?t (0x100000000 + of_nat k * align (region ?w)) = None \<longrightarrow>
                \<not> stale (region ?w) ?t (0x100000000 + of_nat k * align (region ?w))"
    using st0 s1 by (auto simp: less_2_cases_iff)
  from tm_read_serves_staged_and_records_all [OF h1 h2 h3 h4 h5, of "0x2000"]
  obtain t' w' where
    r: "tm_read ?w ?t 0x100000000 16 0x2000 = Inr (True, Some t', w')"
    and rs: "set (read_set t') = set (read_set ?t) \<union> (\<lambda>k. 0x100000000 + of_nat k * align (region ?w)) ` {..<2}"
    and sv: "\<forall>k<2. \<forall>buf. map_of (write_set ?t) (0x100000000 + of_nat k * align (region ?w)) = Some buf \<longrightarrow>
            (\<forall>i<unat (align (region ?w)). priv w' (0x2000 + of_nat k * align (region ?w) + of_nat i) = buf ! i)
          \<and> EvSample (0x100000000 + of_nat k * align (region ?w)) \<notin> set (drop (length (trace ?w)) (trace w'))
          \<and> EvReadData (0x100000000 + of_nat k * align (region ?w)) \<notin> set (drop (length (trace ?w)) (trace w'))"
    by blast
  have rs': "set (read_set t') = {0x100000000, 0x100000008}"
    using rs by (simp add: lessThan_2 ex_tx_def insert_commute)
  from sv [rule_format, of 0 "replicate 8 5"]
  have c: "\<forall>i<8. priv w' (0x2000 + of_nat i) = replicate 8 5 ! i"
    and e: "EvSample 0x100000000 \<notin> set (trace w')"
    by (simp_all add: ex_tx_def)
  from c [rule_format, of 0] have "priv w' 0x2000 = 5" by simp
  with r rs' e show ?thesis by blast
qed

text \<open>
  C5. \<open>tm_read\<close> of \<open>m\<close> words, none of the accesses undefined (\<open>access_ok\<close>). A word is
  served from the write set when \<open>staged\<close> finds a buffer for its address, and is stale
  when its lock is locked or its version exceeds \<open>rv\<close>. If no word read from the region
  is stale, \<open>tm_read\<close> returns true having sampled the lock of each such word and copied
  its payload to the target. If word \<open>k\<close> is the first stale one, \<open>tm_read\<close> returns
  false with the transaction deleted, and the sample of the lock of word \<open>k\<close> is the
  last operation it issued.
\<close>

theorem tm_read_samples_then_aborts_or_copies:
  assumes "0 < unat (align (region w))" and "unat sz = m * unat (align (region w))"
    and "\<forall>k<m. access_ok (region w) t (src + of_nat k * align (region w))"
  shows "((\<forall>k<m. staged t (src + of_nat k * align (region w)) = None \<longrightarrow>
                \<not> stale (region w) t (src + of_nat k * align (region w))) \<longrightarrow>
          (\<exists>t' w'. tm_read w t src sz tgt = Inr (True, Some t', w')
             \<and> (\<forall>k<m. staged t (src + of_nat k * align (region w)) = None \<longrightarrow>
                  EvSample (src + of_nat k * align (region w)) \<in> set (drop (length (trace w)) (trace w'))
                  \<and> (\<forall>x i. Region_word (region w) (src + of_nat k * align (region w)) = Inr x
                         \<and> i < unat (align (region w)) \<longrightarrow>
                       priv w' (tgt + of_nat k * align (region w) + of_nat i) = data x ! i))))
       \<and> (\<forall>k<m. staged t (src + of_nat k * align (region w)) = None
                \<and> stale (region w) t (src + of_nat k * align (region w))
                \<and> (\<forall>j<k. staged t (src + of_nat j * align (region w)) = None \<longrightarrow>
                       \<not> stale (region w) t (src + of_nat j * align (region w))) \<longrightarrow>
          (\<exists>w'. tm_read w t src sz tgt = Inr (False, None, w')
             \<and> last (trace w') = EvSample (src + of_nat k * align (region w))))"
proof (intro conjI impI allI)
  let ?al = "align (region w)"
  assume fresh: "\<forall>k<m. staged t (src + of_nat k * ?al) = None \<longrightarrow> \<not> stale (region w) t (src + of_nat k * ?al)"
  have cl: "\<forall>k<m. clean (region w) t (src + of_nat k * ?al)"
    using assms(3) fresh by (auto simp: clean_def)
  from tm_read_ok [OF assms(1,2) cl, of tgt] obtain t' w' where
    res: "tm_read w t src sz tgt = Inr (True, Some t', w')"
    and tr: "trace w' = trace w @ concat (map (\<lambda>k. read_events t (src + of_nat k * ?al)) [0..<m])"
    and pr: "\<forall>k<m. \<forall>i<length (chunk (region w) t (src + of_nat k * ?al)).
           priv w' (tgt + of_nat k * ?al + of_nat i) = chunk (region w) t (src + of_nat k * ?al) ! i"
    by blast
  have "\<forall>k<m. staged t (src + of_nat k * ?al) = None \<longrightarrow>
          EvSample (src + of_nat k * ?al) \<in> set (drop (length (trace w)) (trace w'))
          \<and> (\<forall>x i. Region_word (region w) (src + of_nat k * ?al) = Inr x \<and> i < unat ?al \<longrightarrow>
                 priv w' (tgt + of_nat k * ?al + of_nat i) = data x ! i)"
  proof (intro allI impI conjI)
    fix k assume k: "k < m" and st: "staged t (src + of_nat k * ?al) = None"
    have "EvSample (src + of_nat k * ?al) \<in> set (read_events t (src + of_nat k * ?al))"
      using st by (simp add: read_events_def)
    then show "EvSample (src + of_nat k * ?al) \<in> set (drop (length (trace w)) (trace w'))"
      using k by (auto simp: tr)
  next
    fix k x i assume k: "k < m" and st: "staged t (src + of_nat k * ?al) = None"
      and xi: "Region_word (region w) (src + of_nat k * ?al) = Inr x \<and> i < unat ?al"
    have ok: "access_ok (region w) t (src + of_nat k * ?al)" using assms(3) k by simp
    have ns: "\<not> stale (region w) t (src + of_nat k * ?al)" using fresh k st by simp
    have "i < length (chunk (region w) t (src + of_nat k * ?al))"
      using chunk_shared(1) [OF ok st ns] xi by simp
    then have "priv w' (tgt + of_nat k * ?al + of_nat i) = chunk (region w) t (src + of_nat k * ?al) ! i"
      using pr k by simp
    then show "priv w' (tgt + of_nat k * ?al + of_nat i) = data x ! i"
      using chunk_shared(2) [OF ok st ns, of x i] xi by simp
  qed
  with res show "\<exists>t' w'. tm_read w t src sz tgt = Inr (True, Some t', w')
             \<and> (\<forall>k<m. staged t (src + of_nat k * ?al) = None \<longrightarrow>
                  EvSample (src + of_nat k * ?al) \<in> set (drop (length (trace w)) (trace w'))
                  \<and> (\<forall>x i. Region_word (region w) (src + of_nat k * ?al) = Inr x \<and> i < unat ?al \<longrightarrow>
                       priv w' (tgt + of_nat k * ?al + of_nat i) = data x ! i))"
    by blast
next
  let ?al = "align (region w)"
  fix k
  assume k: "k < m"
    and h: "staged t (src + of_nat k * ?al) = None \<and> stale (region w) t (src + of_nat k * ?al)
            \<and> (\<forall>j<k. staged t (src + of_nat j * ?al) = None \<longrightarrow> \<not> stale (region w) t (src + of_nat j * ?al))"
  have cl: "\<forall>j<k. clean (region w) t (src + of_nat j * ?al)"
    using assms(3) h k by (auto simp: clean_def)
  have ok: "access_ok (region w) t (src + of_nat k * ?al)" using assms(3) k by simp
  have b1: "staged t (src + of_nat k * ?al) = None" and b2: "stale (region w) t (src + of_nat k * ?al)"
    using h by simp_all
  from tm_read_abort [OF assms(1,2) k cl ok b1 b2, of tgt] obtain w' where
    "tm_read w t src sz tgt = Inr (False, None, w')"
    "trace w' = trace w @ concat (map (\<lambda>j. read_events t (src + of_nat j * ?al)) [0..<k])
                   @ [EvSample (src + of_nat k * ?al)]"
    by blast
  then show "\<exists>w'. tm_read w t src sz tgt = Inr (False, None, w')
             \<and> last (trace w') = EvSample (src + of_nat k * ?al)"
    by simp
qed

theorem tm_read_samples_then_aborts_or_copies_witness:
  "(\<exists>t' w'. tm_read (ex_world [ex_word False 0 7, ex_word True 0 9] 0) (ex_tx False 0 [] [])
                0x100000000 8 0x2000 = Inr (True, Some t', w')
            \<and> priv w' 0x2000 = 7)
   \<and> (\<exists>w'. tm_read (ex_world [ex_word False 0 7, ex_word True 0 9] 0) (ex_tx False 0 [] [])
                0x100000000 16 0x2000 = Inr (False, None, w')
            \<and> last (trace w') = EvSample 0x100000008)"
proof -
  let ?w = "ex_world [ex_word False 0 7, ex_word True 0 9] 0" and ?t = "ex_tx False 0 [] []"
  have st: "staged ?t a = None" for a by (simp add: staged_def ex_tx_def)
  have s0: "\<not> stale (region ?w) ?t 0x100000000"
    by (simp add: stale_def ex_Region_word_0 ex_word_def ex_tx_def)
  have s1: "stale (region ?w) ?t 0x100000008"
    by (simp add: stale_def ex_Region_word_1 ex_word_def)
  have a0: "access_ok (region ?w) ?t 0x100000000"
    by (simp add: access_ok_def ex_Region_word_0 st ex_word_def)
  have a1: "access_ok (region ?w) ?t 0x100000008"
    by (simp add: access_ok_def ex_Region_word_1 st s1)
  have h1: "0 < unat (align (region ?w))" by simp
  have h2: "unat (8 :: 64 word) = 1 * unat (align (region ?w))" by simp
  have h2': "unat (16 :: 64 word) = 2 * unat (align (region ?w))" by simp
  have h3: "\<forall>k<1. access_ok (region ?w) ?t (0x100000000 + of_nat k * align (region ?w))"
    using a0 by simp
  have h3': "\<forall>k<2. access_ok (region ?w) ?t (0x100000000 + of_nat k * align (region ?w))"
    using a0 a1 by (auto simp: less_2_cases_iff)
  note A = tm_read_samples_then_aborts_or_copies [OF h1 h2 h3, of "0x2000", THEN conjunct1]
  note B = tm_read_samples_then_aborts_or_copies [OF h1 h2' h3', of "0x2000", THEN conjunct2, rule_format, of 1]
  from A s0 obtain t' w' where
    r: "tm_read ?w ?t 0x100000000 8 0x2000 = Inr (True, Some t', w')"
    and p: "\<forall>k<1. staged ?t (0x100000000 + of_nat k * align (region ?w)) = None \<longrightarrow>
          EvSample (0x100000000 + of_nat k * align (region ?w)) \<in> set (drop (length (trace ?w)) (trace w'))
          \<and> (\<forall>x i. Region_word (region ?w) (0x100000000 + of_nat k * align (region ?w)) = Inr x
                  \<and> i < unat (align (region ?w)) \<longrightarrow>
                priv w' (0x2000 + of_nat k * align (region ?w) + of_nat i) = data x ! i)"
    by auto
  from p [rule_format, of 0] st
  have "\<forall>i<8. priv w' (0x2000 + of_nat i) = data (ex_word False 0 7) ! i"
    by (simp add: ex_Region_word_0)
  from this [rule_format, of 0] have "priv w' 0x2000 = data (ex_word False 0 7) ! 0"
    by simp
  then have first: "\<exists>t' w'. tm_read ?w ?t 0x100000000 8 0x2000 = Inr (True, Some t', w') \<and> priv w' 0x2000 = 7"
    using r by (auto simp: ex_word_def)
  have second: "\<exists>w'. tm_read ?w ?t 0x100000000 16 0x2000 = Inr (False, None, w')
            \<and> last (trace w') = EvSample 0x100000008"
    using B st s0 s1 by simp
  from first second show ?thesis by blast
qed


text \<open>
  C7. Read your writes. \<open>tm_write\<close> of \<open>sz\<close> bytes from \<open>src\<close> to the shared address \<open>a\<close>
  in a non-read-only transaction gives the transaction \<open>t1\<close>. At any later point of the
  same transaction, \<open>t2\<close>, at which the write set still holds for the words of the
  access what \<open>t1\<close> held (no write to them in between), and in any state \<open>w2\<close> of the
  region and the private memory in which the words exist, \<open>tm_read\<close> of \<open>sz\<close> bytes from
  \<open>a\<close> to \<open>dst\<close> returns true and the bytes at \<open>dst\<close> are the bytes that were at \<open>src\<close>
  when they were written.
\<close>

theorem read_your_writes:
  assumes "0 < unat (align (region w))" and "unat sz = m * unat (align (region w))"
    and "\<not> ro t"
    and "tm_write w t src sz a = Inr (True, Some t1, w1)"
    and "\<not> ro t2"
    and "\<forall>k<m. map_of (write_set t2) (a + of_nat k * align (region w))
               = map_of (write_set t1) (a + of_nat k * align (region w))"
    and "align (region w2) = align (region w)"
    and "\<forall>k<m. \<exists>x. Region_word (region w2) (a + of_nat k * align (region w)) = Inr x"
  shows "\<exists>t3 w3. tm_read w2 t2 a sz dst = Inr (True, Some t3, w3)
     \<and> (\<forall>j<unat sz. priv w3 (dst + of_nat j) = priv w (src + of_nat j))"
proof -
  let ?al = "align (region w)"
  let ?n = "unat ?al"
  from tm_write_result [OF assms(1,2), of t src a] assms(4)
  have wr: "\<forall>k<m. map_of (write_set t1) (a + of_nat k * ?al) = Some (load_bytes (priv w) (src + of_nat k * ?al) ?n)"
    by auto
  have st: "staged t2 (a + of_nat k * ?al) = Some (load_bytes (priv w) (src + of_nat k * ?al) ?n)"
    if "k < m" for k
    using that wr assms(5,6) by (simp add: staged_def)
  have ok: "access_ok (region w2) t2 (a + of_nat k * ?al)" if "k < m" for k
  proof -
    from assms(8) that obtain x where "Region_word (region w2) (a + of_nat k * ?al) = Inr x" by blast
    then show ?thesis using st [OF that] by (simp add: access_ok_def assms(7))
  qed
  have cl: "\<forall>k<m. clean (region w2) t2 (a + of_nat k * align (region w2))"
    using ok st by (simp add: clean_def assms(7))
  have al2: "0 < unat (align (region w2))" and sz2: "unat sz = m * unat (align (region w2))"
    using assms(1,2,7) by simp_all
  from tm_read_ok [OF al2 sz2 cl, of dst] obtain t3 w3 where
    res: "tm_read w2 t2 a sz dst = Inr (True, Some t3, w3)"
    and pr: "\<forall>k<m. \<forall>i<length (chunk (region w2) t2 (a + of_nat k * ?al)).
           priv w3 (dst + of_nat k * ?al + of_nat i) = chunk (region w2) t2 (a + of_nat k * ?al) ! i"
    unfolding assms(7) by blast
  have "\<forall>j<unat sz. priv w3 (dst + of_nat j) = priv w (src + of_nat j)"
  proof (intro allI impI)
    fix j assume j: "j < unat sz"
    define k where "k = j div ?n"
    define i where "i = j mod ?n"
    have k: "k < m" using j assms(1,2) by (simp add: k_def less_mult_imp_div_less)
    have i: "i < ?n" using assms(1) by (simp add: i_def)
    have jk: "j = k * ?n + i" by (simp add: k_def i_def)
    have split: "(of_nat j :: 64 word) = of_nat k * ?al + of_nat i"
      by (simp add: jk)
    have len: "length (chunk (region w2) t2 (a + of_nat k * ?al)) = ?n"
      and nth: "chunk (region w2) t2 (a + of_nat k * ?al) ! i = load_bytes (priv w) (src + of_nat k * ?al) ?n ! i"
      using chunk_staged [OF ok [OF k] st [OF k]] i by (simp_all add: assms(7))
    have "priv w3 (dst + of_nat k * ?al + of_nat i) = load_bytes (priv w) (src + of_nat k * ?al) ?n ! i"
      using pr k i len nth by simp
    also have "\<dots> = priv w (src + of_nat k * ?al + of_nat i)" using i by simp
    finally show "priv w3 (dst + of_nat j) = priv w (src + of_nat j)"
      by (simp add: split add.assoc)
  qed
  with res show ?thesis by blast
qed

theorem read_your_writes_witness:
  "\<exists>t1 t3 w3.
      tm_write (ex_world [ex_word False 0 7, ex_word True 3 9] 0) (ex_tx False 0 [] [])
         0x1000 16 0x100000000
        = Inr (True, Some t1, ex_world [ex_word False 0 7, ex_word True 3 9] 0)
    \<and> tm_read (ex_world [ex_word False 0 7, ex_word True 3 9] 0) t1 0x100000000 16 0x2000
        = Inr (True, Some t3, w3)
    \<and> priv w3 0x2000 = 0 \<and> priv w3 0x200F = 15"
proof -
  let ?w = "ex_world [ex_word False 0 7, ex_word True 3 9] 0" and ?t = "ex_tx False 0 [] []"
  have h1: "0 < unat (align (region ?w))" by simp
  have h2: "unat (16 :: 64 word) = 2 * unat (align (region ?w))" by simp
  have h3: "\<not> ro ?t" by (simp add: ex_tx_def)
  from tm_write_result [OF h1 h2, of ?t "0x1000" "0x100000000"] obtain t1 where
    wr: "tm_write ?w ?t 0x1000 16 0x100000000 = Inr (True, Some t1, ?w)" and ro1: "ro t1 = ro ?t"
    by blast
  have h5: "\<not> ro t1" using ro1 h3 by simp
  have h6: "\<forall>k<2. map_of (write_set t1) (0x100000000 + of_nat k * align (region ?w))
               = map_of (write_set t1) (0x100000000 + of_nat k * align (region ?w))"
    by simp
  have h8: "\<forall>k<2. \<exists>x. Region_word (region ?w) (0x100000000 + of_nat k * align (region ?w)) = Inr x"
    by (auto simp: less_2_cases_iff ex_Region_word_0 ex_Region_word_1)
  from read_your_writes [OF h1 h2 h3 wr h5 h6 refl h8, of "0x2000"] obtain t3 w3 where
    rd: "tm_read ?w t1 0x100000000 16 0x2000 = Inr (True, Some t3, w3)"
    and eq: "\<forall>j<unat (16 :: 64 word). priv w3 (0x2000 + of_nat j) = priv ?w (0x1000 + of_nat j)"
    by blast
  from eq [rule_format, of 0] have p0: "priv w3 0x2000 = 0" by (simp add: ex_world_def)
  from eq [rule_format, of 15] have p15: "priv w3 0x200F = 15" by (simp add: ex_world_def)
  from wr rd p0 p15 show ?thesis by blast
qed

text \<open>
  C8. \<open>tm_write\<close> stages every \<open>align\<close>-byte word of the source in the write set of the
  transaction, under the address of its target word, returns true, and leaves the world
  as it was: no payload, no lock and not the global version clock is modified, and no
  operation on shared state is issued. The size is a multiple of the alignment and the
  alignment is not zero, as the interface requires; for any size, a \<open>tm_write\<close> that
  returns has returned true and left the world as it was.
\<close>

theorem tm_write_stages_privately:
  assumes "0 < unat (align (region w))" and "unat sz = m * unat (align (region w))"
  shows "(\<exists>t'. tm_write w t src sz tgt = Inr (True, Some t', w)
     \<and> (\<forall>k<m. map_of (write_set t') (tgt + of_nat k * align (region w)) =
           Some (load_bytes (priv w) (src + of_nat k * align (region w)) (unat (align (region w)))))
     \<and> (\<forall>a. (\<forall>k<m. a \<noteq> tgt + of_nat k * align (region w)) \<longrightarrow>
           map_of (write_set t') a = map_of (write_set t) a)
     \<and> ro t' = ro t \<and> rv t' = rv t \<and> wv t' = wv t \<and> read_set t' = read_set t)
   \<and> (\<forall>n res. tm_write w t src n tgt = Inr res \<longrightarrow> fst res \<and> snd (snd res) = w)"
  using tm_write_result [OF assms, of t src tgt] tm_write_true [of w t src _ tgt]
    tm_write_frame [of w t src _ tgt]
  by blast

theorem tm_write_stages_privately_witness:
  "\<exists>t'. tm_write (ex_world [ex_word False 0 0, ex_word False 0 0] 0) (ex_tx False 0 [] [])
            0x1000 16 0x100000000
          = Inr (True, Some t', ex_world [ex_word False 0 0, ex_word False 0 0] 0)
        \<and> map_of (write_set t') 0x100000008 = Some [8, 9, 10, 11, 12, 13, 14, 15]"
proof -
  let ?w = "ex_world [ex_word False 0 0, ex_word False 0 0] 0"
  have al: "align (region ?w) = 8" by (simp add: ex_world_def ex_region_def)
  have h1: "0 < unat (align (region ?w))" by (simp add: al)
  have h2: "unat (16 :: 64 word) = 2 * unat (align (region ?w))" by (simp add: al)
  from tm_write_stages_privately [OF h1 h2, of "ex_tx False 0 [] []" "0x1000" "0x100000000", THEN conjunct1]
  obtain t' where
    "tm_write ?w (ex_tx False 0 [] []) 0x1000 16 0x100000000 = Inr (True, Some t', ?w)"
    "\<forall>k<2. map_of (write_set t') (0x100000000 + of_nat k * align (region ?w)) =
       Some (load_bytes (priv ?w) (0x1000 + of_nat k * align (region ?w)) (unat (align (region ?w))))"
    by blast
  moreover from this(2) [rule_format, of 1]
  have "map_of (write_set t') 0x100000008 = Some [8, 9, 10, 11, 12, 13, 14, 15]"
    by (simp add: ex_world_def ex_region_def load_bytes_8)
  ultimately show ?thesis by blast
qed

text \<open>
  C9. A transaction begins with an empty read set; \<open>tm_read\<close> in a read-only transaction
  that returns true leaves the transaction, hence its read set, as it was (and one that
  returns false has deleted it); \<open>tm_end\<close> of a read-only transaction deletes the
  transaction and returns true, with the world unchanged.
\<close>

theorem read_only_read_set_stays_empty:
  "read_set (fst (tm_begin w0 True)) = [] \<and> ro (fst (tm_begin w0 True))
   \<and> (ro t \<longrightarrow>
        (\<forall>ok topt w'. tm_read w t src sz tgt = Inr (ok, topt, w') \<longrightarrow>
            (case topt of None \<Rightarrow> \<not> ok | Some t' \<Rightarrow> ok \<and> t' = t))
      \<and> tm_end w t = Inr (True, None, w))"
proof -
  have "\<forall>ok topt w'. tm_read w t src sz tgt = Inr (ok, topt, w') \<longrightarrow>
            (case topt of None \<Rightarrow> \<not> ok | Some t' \<Rightarrow> ok \<and> t' = t)" if "ro t"
    using tm_read_ro_result [OF that, of w src sz tgt] by (auto split: option.splits)
  then show ?thesis by (simp add: tm_begin_def tm_end_def)
qed

theorem read_only_read_set_stays_empty_witness:
  "ro (ex_tx True 0 [] [])
   \<and> tm_end (ex_world [ex_word False 0 7] 0) (ex_tx True 0 [] [])
       = Inr (True, None, ex_world [ex_word False 0 7] 0)
   \<and> (\<exists>w'. tm_read (ex_world [ex_word False 0 7] 0) (ex_tx True 0 [] []) 0x100000000 8 0x2000
             = Inr (True, Some (ex_tx True 0 [] []), w'))"
proof -
  let ?w = "ex_world [ex_word False 0 7] 0" and ?t = "ex_tx True 0 [] []"
  have ro: "ro ?t" by (simp add: ex_tx_def)
  have e: "tm_end ?w ?t = Inr (True, None, ?w)"
    using read_only_read_set_stays_empty [of _ ?t ?w] ro by blast
  have "\<exists>w'. tm_read ?w ?t 0x100000000 8 0x2000 = Inr (True, Some ?t, w')"
    by (simp add: tm_read_def for_offsets.simps [of _ _ _ 0] for_offsets.simps [of _ _ _ 8]
        tm_read_ro_body_def read_shared_def
        Region_word_def word_index_def kADDR_MASK_def drop_bit_eq_div memcpy_out_def Sample_def
        ex_world_def ex_region_def ex_word_def ex_tx_def Let_def)
  with ro e show ?thesis by blast
qed



end
